theory Spec2Isabelle
  imports Main "HOL-Library.Word"
begin

section \<open>Character classification\<close>

text \<open>
  The lexer classifies characters with the functions of \<^verbatim>\<open><cctype>\<close>.  The program never
  changes the locale, so they are the functions of the "C" locale, written here over the
  byte value of a character.  A byte above 127 belongs to no class.
\<close>

definition isdigit :: "char \<Rightarrow> bool" where
  "isdigit c = (48 \<le> (of_char c :: nat) \<and> (of_char c :: nat) \<le> 57)"

definition isalpha :: "char \<Rightarrow> bool" where
  "isalpha c = ((65 \<le> (of_char c :: nat) \<and> (of_char c :: nat) \<le> 90) \<or>
                (97 \<le> (of_char c :: nat) \<and> (of_char c :: nat) \<le> 122))"

definition isalnum :: "char \<Rightarrow> bool" where
  "isalnum c = (isalpha c \<or> isdigit c)"

definition isspace :: "char \<Rightarrow> bool" where
  "isspace c = ((of_char c :: nat) = 32 \<or>
                (9 \<le> (of_char c :: nat) \<and> (of_char c :: nat) \<le> 13))"

definition ispunct :: "char \<Rightarrow> bool" where
  "ispunct c = ((33 \<le> (of_char c :: nat) \<and> (of_char c :: nat) \<le> 47) \<or>
                (58 \<le> (of_char c :: nat) \<and> (of_char c :: nat) \<le> 64) \<or>
                (91 \<le> (of_char c :: nat) \<and> (of_char c :: nat) \<le> 96) \<or>
                (123 \<le> (of_char c :: nat) \<and> (of_char c :: nat) \<le> 126))"

section \<open>Tokens and the lexer\<close>

text \<open>
  \<^verbatim>\<open>struct Token { std::string type; std::string value; int line; int column; }\<close>.
  The two \<^verbatim>\<open>int\<close> fields are 32-bit machine integers: a word of 32 bits, which
  \<open>sint\<close> reads as the signed value, and whose increment wraps around.
\<close>

record Token =
  tok_type :: string
  tok_value :: string
  tok_line :: "32 word"
  tok_column :: "32 word"

text \<open>The private fields of \<^verbatim>\<open>class Lexer\<close>; \<^verbatim>\<open>position\<close> is a \<^verbatim>\<open>size_t\<close>
  that never exceeds the length of the input.\<close>

record Lexer =
  input :: string
  position :: nat
  line :: "32 word"
  column :: "32 word"

text \<open>The constructor \<^verbatim>\<open>Lexer(source)\<close>.\<close>

definition new_Lexer :: "string \<Rightarrow> Lexer" where
  "new_Lexer source = \<lparr>input = source, position = 0, line = 1, column = 1\<rparr>"

text \<open>\<^verbatim>\<open>Lexer::isKeyword\<close>: a lookup in the fixed table that the source calls
  \<^verbatim>\<open>keywords\<close>.\<close>

definition keyword_table :: "(string \<times> bool) list" where
  "keyword_table =
     [(''int'', True), (''char'', True), (''float'', True),
      (''double'', True), (''void'', True), (''if'', True),
      (''else'', True), (''while'', True), (''for'', True),
      (''return'', True), (''printf'', True)]"

definition isKeyword :: "string \<Rightarrow> bool" where
  "isKeyword word = (map_of keyword_table word \<noteq> None)"

text \<open>The inner loop of the identifier branch: it appends to \<^verbatim>\<open>identifier\<close> and
  advances \<^verbatim>\<open>position\<close> and \<^verbatim>\<open>column\<close> while the character is alphanumeric or an
  underscore.\<close>

function scan_identifier :: "Lexer \<Rightarrow> string \<Rightarrow> string \<times> Lexer" where
  "scan_identifier lx identifier =
     (if position lx < length (input lx) \<and>
         (isalnum (input lx ! position lx) \<or> input lx ! position lx = CHR ''_'')
      then scan_identifier
             (lx\<lparr>position := position lx + 1, column := column lx + 1\<rparr>)
             (identifier @ [input lx ! position lx])
      else (identifier, lx))"
  by pat_completeness auto
termination
  by (relation "measure (\<lambda>(lx, _). length (input lx) - position lx)") auto

text \<open>The inner loop of the number branch: digits and dots, with no check on the
  number of dots.\<close>

function scan_number :: "Lexer \<Rightarrow> string \<Rightarrow> string \<times> Lexer" where
  "scan_number lx number =
     (if position lx < length (input lx) \<and>
         (isdigit (input lx ! position lx) \<or> input lx ! position lx = CHR ''.'')
      then scan_number
             (lx\<lparr>position := position lx + 1, column := column lx + 1\<rparr>)
             (number @ [input lx ! position lx])
      else (number, lx))"
  by pat_completeness auto
termination
  by (relation "measure (\<lambda>(lx, _). length (input lx) - position lx)") auto

declare scan_identifier.simps [simp del] scan_number.simps [simp del]

lemma scan_identifier_frame:
  "scan_identifier lx acc = (w, lx') \<Longrightarrow>
     input lx' = input lx \<and> line lx' = line lx \<and> position lx \<le> position lx'"
proof (induction lx acc arbitrary: w lx' rule: scan_identifier.induct)
  case (1 lx ident)
  show ?case
  proof (cases "position lx < length (input lx) \<and>
         (isalnum (input lx ! position lx) \<or> input lx ! position lx = CHR ''_'')")
    case True
    with "1.prems" have
      "scan_identifier (lx\<lparr>position := position lx + 1, column := column lx + 1\<rparr>)
         (ident @ [input lx ! position lx]) = (w, lx')"
      by (simp add: scan_identifier.simps [of lx])
    from "1.IH" [OF True this] show ?thesis by simp
  next
    case False
    with "1.prems" show ?thesis by (simp add: scan_identifier.simps [of lx])
  qed
qed

lemma scan_number_frame:
  "scan_number lx acc = (w, lx') \<Longrightarrow>
     input lx' = input lx \<and> line lx' = line lx \<and> position lx \<le> position lx'"
proof (induction lx acc arbitrary: w lx' rule: scan_number.induct)
  case (1 lx number)
  show ?case
  proof (cases "position lx < length (input lx) \<and>
         (isdigit (input lx ! position lx) \<or> input lx ! position lx = CHR ''.'')")
    case True
    with "1.prems" have
      "scan_number (lx\<lparr>position := position lx + 1, column := column lx + 1\<rparr>)
         (number @ [input lx ! position lx]) = (w, lx')"
      by (simp add: scan_number.simps [of lx])
    from "1.IH" [OF True this] show ?thesis by simp
  next
    case False
    with "1.prems" show ?thesis by (simp add: scan_number.simps [of lx])
  qed
qed

lemma scan_identifier_progress:
  assumes "position lx < length (input lx)"
    and "isalpha (input lx ! position lx) \<or> input lx ! position lx = CHR ''_''"
    and "scan_identifier lx acc = (w, lx')"
  shows "input lx' = input lx \<and> position lx < position lx'"
proof -
  from assms have
    "scan_identifier (lx\<lparr>position := position lx + 1, column := column lx + 1\<rparr>)
       (acc @ [input lx ! position lx]) = (w, lx')"
    by (auto simp: scan_identifier.simps [of lx] isalnum_def split: if_splits)
  from scan_identifier_frame [OF this] show ?thesis by simp
qed

lemma scan_number_progress:
  assumes "position lx < length (input lx)"
    and "isdigit (input lx ! position lx)"
    and "scan_number lx acc = (w, lx')"
  shows "input lx' = input lx \<and> position lx < position lx'"
proof -
  from assms have
    "scan_number (lx\<lparr>position := position lx + 1, column := column lx + 1\<rparr>)
       (acc @ [input lx ! position lx]) = (w, lx')"
    by (auto simp: scan_number.simps [of lx] split: if_splits)
  from scan_number_frame [OF this] show ?thesis by simp
qed

text \<open>
  The loop of \<^verbatim>\<open>Lexer::tokenize\<close>.  One call is one iteration: whitespace is skipped
  (a newline starts a new line), a letter or underscore starts an identifier or keyword,
  a digit starts a number, and any other character is a token of its own, whose type is
  chosen by \<^verbatim>\<open>ispunct\<close>.
\<close>

function tokenize_loop :: "Lexer \<Rightarrow> Token list \<Rightarrow> Token list \<times> Lexer" where
  "tokenize_loop lx tokens =
     (if position lx < length (input lx) then
        (if isspace (input lx ! position lx) then
           tokenize_loop
             ((if input lx ! position lx = CHR 0x0A
               then lx\<lparr>line := line lx + 1, column := 1\<rparr>
               else lx\<lparr>column := column lx + 1\<rparr>)\<lparr>position := position lx + 1\<rparr>)
             tokens
         else if isalpha (input lx ! position lx) \<or> input lx ! position lx = CHR ''_'' then
           (case scan_identifier lx [] of (identifier, lx') \<Rightarrow>
              tokenize_loop lx'
                (tokens @
                 [\<lparr>tok_type = (if isKeyword identifier then ''KEYWORD'' else ''IDENTIFIER''),
                   tok_value = identifier, tok_line = line lx', tok_column = column lx\<rparr>]))
         else if isdigit (input lx ! position lx) then
           (case scan_number lx [] of (number, lx') \<Rightarrow>
              tokenize_loop lx'
                (tokens @
                 [\<lparr>tok_type = ''NUMBER'', tok_value = number,
                   tok_line = line lx', tok_column = column lx\<rparr>]))
         else
           tokenize_loop
             (lx\<lparr>position := position lx + 1, column := column lx + 1\<rparr>)
             (tokens @
              [\<lparr>tok_type = (if ispunct (input lx ! position lx)
                              then ''PUNCTUATION'' else ''OPERATOR''),
                tok_value = [input lx ! position lx],
                tok_line = line lx, tok_column = column lx\<rparr>]))
      else (tokens, lx))"
  by pat_completeness auto
termination
proof (relation "measure (\<lambda>(lx, _). length (input lx) - position lx)", goal_cases)
  case 1
  show ?case by simp
next
  case (2 lx tokens)
  then show ?case by auto
next
  case (3 lx tokens ident lx')
  from scan_identifier_progress [OF 3(1) 3(3) 3(4) [symmetric]] 3(1)
  show ?case by auto
next
  case (4 lx tokens number lx')
  from scan_number_progress [OF 4(1) 4(4) 4(5) [symmetric]] 4(1)
  show ?case by auto
next
  case (5 lx tokens)
  then show ?case by auto
qed

declare tokenize_loop.simps [simp del]

text \<open>\<^verbatim>\<open>Lexer::tokenize\<close> starts the loop with no tokens; \<^verbatim>\<open>tokenize_source\<close> is
  what \<^verbatim>\<open>main\<close> does: construct a lexer on the text and ask for its tokens.\<close>

definition tokenize :: "Lexer \<Rightarrow> Token list \<times> Lexer" where
  "tokenize lx = tokenize_loop lx []"

definition tokenize_source :: "string \<Rightarrow> Token list" where
  "tokenize_source source = fst (tokenize (new_Lexer source))"

section \<open>The abstract syntax tree and the parser\<close>

text \<open>
  \<^verbatim>\<open>struct ASTNode { std::string type; std::string value; children; }\<close>.  A node owns
  its children, so the tree is a datatype; a null \<^verbatim>\<open>shared_ptr<ASTNode>\<close> is \<open>None\<close>.
\<close>

datatype ASTNode = Node (node_type: string) (node_value: string) (children: "ASTNode list")

text \<open>
  \<^verbatim>\<open>tokens[current]\<close> on a \<^verbatim>\<open>std::vector\<close> is defined only below \<^verbatim>\<open>tokens.size()\<close>.
  Every such read of the parser is a \<open>token_at\<close>, which fails past the end, and every
  parser function hands the failure on to its caller at once.
\<close>

datatype error = OutOfBounds

definition token_at :: "Token list \<Rightarrow> nat \<Rightarrow> error + Token" where
  "token_at tokens i = (if i < length tokens then Inr (tokens ! i) else Inl OutOfBounds)"

text \<open>
  \<^verbatim>\<open>parseStatement\<close> calls three methods that \<^verbatim>\<open>compiler.cpp\<close> never defines
  (\<^verbatim>\<open>// Add other parsing methods as needed...\<close>).  They are parameters of the model:
  each is any function from the token sequence and the cursor to the node it returns
  (if any) and the new cursor.  The token sequence itself is never written by the
  source, so it is an argument and not part of the state; the state is the cursor
  \<^verbatim>\<open>current\<close>.
\<close>

record missing_methods =
  parseIfStatement :: "Token list \<Rightarrow> nat \<Rightarrow> ASTNode option \<times> nat"
  parseReturnStatement :: "Token list \<Rightarrow> nat \<Rightarrow> ASTNode option \<times> nat"
  parseExpressionStatement :: "Token list \<Rightarrow> nat \<Rightarrow> ASTNode option \<times> nat"

text \<open>The end of \<^verbatim>\<open>Parser::parseStatement\<close>, reached when the token is not the keyword
  \<^verbatim>\<open>if\<close> or \<^verbatim>\<open>return\<close>: an expression statement and a semicolon, if one follows.\<close>

definition parseStatement_expression ::
    "missing_methods \<Rightarrow> Token list \<Rightarrow> nat \<Rightarrow> error + (ASTNode option \<times> nat)" where
  "parseStatement_expression M tokens current =
     (case parseExpressionStatement M tokens current of (stmt, current') \<Rightarrow>
        if current' < length tokens then
          (case token_at tokens current' of Inl e \<Rightarrow> Inl e
           | Inr t \<Rightarrow>
               if tok_value t = '';'' then Inr (stmt, current' + 1) else Inr (stmt, current'))
        else Inr (stmt, current'))"

text \<open>\<^verbatim>\<open>Parser::parseStatement\<close>.  The source reads \<^verbatim>\<open>tokens[current]\<close> three times on
  the keyword path; so does the model.\<close>

definition parseStatement ::
    "missing_methods \<Rightarrow> Token list \<Rightarrow> nat \<Rightarrow> error + (ASTNode option \<times> nat)" where
  "parseStatement M tokens current =
     (if current \<ge> length tokens then Inr (None, current)
      else case token_at tokens current of Inl e \<Rightarrow> Inl e
        | Inr t \<Rightarrow>
            if tok_type t = ''KEYWORD'' then
              (case token_at tokens current of Inl e \<Rightarrow> Inl e
               | Inr t1 \<Rightarrow>
                   if tok_value t1 = ''if'' then Inr (parseIfStatement M tokens current)
                   else (case token_at tokens current of Inl e \<Rightarrow> Inl e
                     | Inr t2 \<Rightarrow>
                         if tok_value t2 = ''return''
                         then Inr (parseReturnStatement M tokens current)
                         else parseStatement_expression M tokens current))
            else parseStatement_expression M tokens current)"

text \<open>
  The loop of \<^verbatim>\<open>Parser::parseBlock\<close>.  Nothing in it makes the cursor advance when
  \<^verbatim>\<open>parseStatement\<close> does not, so it may run forever: not returning is the value
  \<open>None\<close>.
\<close>

partial_function (option) parseBlock_loop ::
    "missing_methods \<Rightarrow> Token list \<Rightarrow> nat \<Rightarrow> ASTNode list
      \<Rightarrow> (error + (ASTNode list \<times> nat)) option" where
  "parseBlock_loop M tokens current kids =
     (if current < length tokens then
        (case token_at tokens current of Inl e \<Rightarrow> Some (Inl e)
         | Inr t \<Rightarrow>
             if tok_value t \<noteq> ''}'' then
               (case parseStatement M tokens current of Inl e \<Rightarrow> Some (Inl e)
                | Inr (statement, current') \<Rightarrow>
                    parseBlock_loop M tokens current'
                      (case statement of None \<Rightarrow> kids | Some n \<Rightarrow> kids @ [n]))
             else Some (Inr (kids, current)))
      else Some (Inr (kids, current)))"

text \<open>\<^verbatim>\<open>Parser::parseBlock\<close>: the loop, then the closing brace if it is there.\<close>

definition parseBlock ::
    "missing_methods \<Rightarrow> Token list \<Rightarrow> nat \<Rightarrow> (error + (ASTNode \<times> nat)) option" where
  "parseBlock M tokens current =
     (case parseBlock_loop M tokens current [] of None \<Rightarrow> None
      | Some (Inl e) \<Rightarrow> Some (Inl e)
      | Some (Inr (kids, current')) \<Rightarrow>
          if current' < length tokens then
            (case token_at tokens current' of Inl e \<Rightarrow> Some (Inl e)
             | Inr t \<Rightarrow>
                 if tok_value t = ''}''
                 then Some (Inr (Node ''BLOCK'' [] kids, current' + 1))
                 else Some (Inr (Node ''BLOCK'' [] kids, current')))
          else Some (Inr (Node ''BLOCK'' [] kids, current')))"

text \<open>The parameter loop of \<^verbatim>\<open>Parser::parseDeclaration\<close>: skip to the next \<^verbatim>\<open>)\<close>.\<close>

function skip_parameters :: "Token list \<Rightarrow> nat \<Rightarrow> error + nat" where
  "skip_parameters tokens current =
     (if current < length tokens then
        (case token_at tokens current of Inl e \<Rightarrow> Inl e
         | Inr t \<Rightarrow>
             if tok_value t \<noteq> '')'' then skip_parameters tokens (current + 1)
             else Inr current)
      else Inr current)"
  by pat_completeness auto
termination
  by (relation "measure (\<lambda>(tokens, current). length tokens - current)") auto

declare skip_parameters.simps [simp del]

text \<open>
  \<^verbatim>\<open>Parser::parseDeclaration\<close>.  The two reads \<^verbatim>\<open>tokens[current++].value\<close> stand after
  the early returns; the cursor is \<open>current + 1\<close> after the type and \<open>current + 2\<close> after
  the name, and no path sets it back.
\<close>

definition parseDeclaration ::
    "missing_methods \<Rightarrow> Token list \<Rightarrow> nat \<Rightarrow> (error + (ASTNode option \<times> nat)) option" where
  "parseDeclaration M tokens current =
     (if current \<ge> length tokens then Some (Inr (None, current))
      else case token_at tokens current of Inl e \<Rightarrow> Some (Inl e)
      | Inr t0 \<Rightarrow>
      if tok_type t0 \<noteq> ''KEYWORD'' then Some (Inr (None, current))
      else case token_at tokens current of Inl e \<Rightarrow> Some (Inl e)
      | Inr type_token \<Rightarrow>
      if current + 1 \<ge> length tokens then Some (Inr (None, current + 1))
      else case token_at tokens (current + 1) of Inl e \<Rightarrow> Some (Inl e)
      | Inr t1 \<Rightarrow>
      if tok_type t1 \<noteq> ''IDENTIFIER'' then Some (Inr (None, current + 1))
      else case token_at tokens (current + 1) of Inl e \<Rightarrow> Some (Inl e)
      | Inr name_token \<Rightarrow>
      if current + 2 < length tokens then
        (case token_at tokens (current + 2) of Inl e \<Rightarrow> Some (Inl e)
         | Inr t2 \<Rightarrow>
         if tok_value t2 = ''('' then
           (case skip_parameters tokens (current + 3) of Inl e \<Rightarrow> Some (Inl e)
            | Inr c3 \<Rightarrow>
            (case (if c3 < length tokens then
                     (case token_at tokens c3 of Inl e \<Rightarrow> Inl e
                      | Inr t3 \<Rightarrow> Inr (if tok_value t3 = '')'' then c3 + 1 else c3))
                   else Inr c3) of Inl e \<Rightarrow> Some (Inl e)
             | Inr c4 \<Rightarrow>
             if c4 < length tokens then
               (case token_at tokens c4 of Inl e \<Rightarrow> Some (Inl e)
                | Inr t4 \<Rightarrow>
                if tok_value t4 = ''{'' then
                  (case parseBlock M tokens (c4 + 1) of None \<Rightarrow> None
                   | Some (Inl e) \<Rightarrow> Some (Inl e)
                   | Some (Inr (block, c5)) \<Rightarrow>
                       Some (Inr (Some (Node ''FUNCTION_DECLARATION'' (tok_value name_token)
                                         [block]), c5)))
                else Some (Inr (Some (Node ''FUNCTION_DECLARATION'' (tok_value name_token) []),
                                c4)))
             else Some (Inr (Some (Node ''FUNCTION_DECLARATION'' (tok_value name_token) []),
                             c4))))
         else Some (Inr (None, current + 2)))
      else Some (Inr (None, current + 2)))"

text \<open>The loop of \<^verbatim>\<open>Parser::parse\<close>; it too may run forever.\<close>

partial_function (option) parse_loop ::
    "missing_methods \<Rightarrow> Token list \<Rightarrow> nat \<Rightarrow> ASTNode list
      \<Rightarrow> (error + (ASTNode list \<times> nat)) option" where
  "parse_loop M tokens current kids =
     (if current < length tokens then
        (case parseDeclaration M tokens current of None \<Rightarrow> None
         | Some (Inl e) \<Rightarrow> Some (Inl e)
         | Some (Inr (node, current')) \<Rightarrow>
             parse_loop M tokens current'
               (case node of None \<Rightarrow> kids | Some n \<Rightarrow> kids @ [n]))
      else Some (Inr (kids, current)))"

text \<open>\<^verbatim>\<open>Parser::parse\<close> on a parser constructed from \<open>tokens\<close>: the cursor starts at 0
  and the root is a \<^verbatim>\<open>PROGRAM\<close> node.\<close>

definition parse :: "missing_methods \<Rightarrow> Token list \<Rightarrow> (error + ASTNode) option" where
  "parse M tokens =
     (case parse_loop M tokens 0 [] of None \<Rightarrow> None
      | Some (Inl e) \<Rightarrow> Some (Inl e)
      | Some (Inr (kids, current)) \<Rightarrow> Some (Inr (Node ''PROGRAM'' [] kids)))"

section \<open>Definitions used to state the properties\<close>

text \<open>The two inner loops stop at the first character that fails these tests.\<close>

definition ident_char :: "char \<Rightarrow> bool" where
  "ident_char c = (isalnum c \<or> c = CHR ''_'')"

definition number_char :: "char \<Rightarrow> bool" where
  "number_char c = (isdigit c \<or> c = CHR ''.'')"

text \<open>The lexer after \<open>n\<close> more characters on the same line.\<close>

definition advance_by :: "Lexer \<Rightarrow> nat \<Rightarrow> Lexer" where
  "advance_by lx n = lx\<lparr>position := position lx + n, column := column lx + of_nat n\<rparr>"

text \<open>
  The tokens that the loop appends when it stands at a given line and column before a
  given rest of the input.  This is a derived description, proved equal to the loop in
  \<open>tokenize_loop_tokens\<close>; it follows the remaining text instead of an index.
\<close>

function tokens_of :: "32 word \<Rightarrow> 32 word \<Rightarrow> string \<Rightarrow> Token list" where
  "tokens_of l c [] = []"
| "tokens_of l c (x # xs) =
     (if isspace x then
        (if x = CHR 0x0A then tokens_of (l + 1) 1 xs else tokens_of l (c + 1) xs)
      else if isalpha x \<or> x = CHR ''_'' then
        \<lparr>tok_type = (if isKeyword (x # takeWhile ident_char xs)
                      then ''KEYWORD'' else ''IDENTIFIER''),
          tok_value = x # takeWhile ident_char xs, tok_line = l, tok_column = c\<rparr>
        # tokens_of l (c + of_nat (Suc (length (takeWhile ident_char xs))))
            (dropWhile ident_char xs)
      else if isdigit x then
        \<lparr>tok_type = ''NUMBER'', tok_value = x # takeWhile number_char xs,
          tok_line = l, tok_column = c\<rparr>
        # tokens_of l (c + of_nat (Suc (length (takeWhile number_char xs))))
            (dropWhile number_char xs)
      else
        \<lparr>tok_type = (if ispunct x then ''PUNCTUATION'' else ''OPERATOR''),
          tok_value = [x], tok_line = l, tok_column = c\<rparr>
        # tokens_of l (c + 1) xs)"
  by pat_completeness auto
termination
  by (relation "measure (\<lambda>(l, c, s). length s)")
     (auto simp: less_Suc_eq_le length_dropWhile_le)

declare tokens_of.simps(2) [simp del]

text \<open>
  The rule of position tracking as the specification words it: a newline moves to the next
  line and resets the column to 1, any other character moves one column to the right.
  The loop itself never calls such a function; the theorems below compare its
  \<^verbatim>\<open>line\<close> and \<^verbatim>\<open>column\<close> fields with this rule.
\<close>

definition advance :: "32 word \<times> 32 word \<Rightarrow> char \<Rightarrow> 32 word \<times> 32 word" where
  "advance pos ch = (if ch = CHR 0x0A then (fst pos + 1, 1) else (fst pos, snd pos + 1))"

text \<open>The lexemes in order with one blank between neighbours, and the two fields of a
  token that the comparison looks at.\<close>

fun join_lexemes :: "string list \<Rightarrow> string" where
  "join_lexemes [] = []"
| "join_lexemes [w] = w"
| "join_lexemes (w # v # ws) = w @ CHR '' '' # join_lexemes (v # ws)"

definition kind_and_lexeme :: "Token \<Rightarrow> string \<times> string" where
  "kind_and_lexeme t = (tok_type t, tok_value t)"

section \<open>The return statement, from the specification\<close>

text \<open>
  Modelled from the spec: \<^verbatim>\<open>parseExpression\<close>, which \<^verbatim>\<open>compiler.cpp\<close> does not contain.
  The specification asks of an expression only that the raw token span is captured as
  the value.  The span taken here runs up to the next \<^verbatim>\<open>;\<close> or \<^verbatim>\<open>}\<close> or the end of the
  tokens; an empty span is no expression.
\<close>

definition spec_parseExpression :: "Token list \<Rightarrow> nat \<Rightarrow> ASTNode option \<times> nat" where
  "spec_parseExpression tokens current =
     (let span = takeWhile (\<lambda>t. tok_value t \<noteq> '';'' \<and> tok_value t \<noteq> ''}'') (drop current tokens)
      in if span = [] then (None, current)
         else (Some (Node ''EXPRESSION'' (join_lexemes (map tok_value span)) []),
               current + length span))"

text \<open>
  Modelled from the spec: \<^verbatim>\<open>parseReturnStatement\<close>, which \<^verbatim>\<open>parseStatement\<close> calls and
  \<^verbatim>\<open>compiler.cpp\<close> does not contain.  In the words of the specification: consume
  \<^verbatim>\<open>return\<close>, parse an optional expression, expect a terminating \<^verbatim>\<open>;\<close>, and attach a
  \<^verbatim>\<open>ReturnStatement\<close> with the expression as its single optional child.  The node type is
  written as the source writes its node types.
\<close>

definition spec_parseReturnStatement :: "Token list \<Rightarrow> nat \<Rightarrow> ASTNode option \<times> nat" where
  "spec_parseReturnStatement tokens current =
     (case spec_parseExpression tokens (current + 1) of (expression, current') \<Rightarrow>
        (Some (Node ''RETURN_STATEMENT'' []
                 (case expression of None \<Rightarrow> [] | Some e \<Rightarrow> [e])),
         if current' < length tokens \<and> tok_value (tokens ! current') = '';''
         then current' + 1 else current'))"

section \<open>The lexer loop and its list view\<close>

lemma advance_by_0: "advance_by lx 0 = lx"
  by (simp add: advance_by_def)

lemma advance_by_Suc:
  "advance_by (lx\<lparr>position := Suc (position lx), column := column lx + 1\<rparr>) n =
     advance_by lx (Suc n)"
  by (simp add: advance_by_def add.assoc add.commute)

lemma drop_at: "p < length s \<Longrightarrow> drop p s = s ! p # drop (Suc p) s"
  by (simp add: Cons_nth_drop_Suc)

lemma scan_identifier_eq:
  "scan_identifier lx acc =
     (acc @ takeWhile ident_char (drop (position lx) (input lx)),
      advance_by lx (length (takeWhile ident_char (drop (position lx) (input lx)))))"
proof (induction lx acc rule: scan_identifier.induct)
  case (1 lx ident)
  let ?p = "position lx" and ?s = "input lx"
  show ?case
  proof (cases "?p < length ?s")
    case False
    then show ?thesis
      by (simp add: scan_identifier.simps [of lx] advance_by_0)
  next
    case inb: True
    show ?thesis
    proof (cases "ident_char (?s ! ?p)")
      case True
      with inb have c: "?p < length ?s \<and> (isalnum (?s ! ?p) \<or> ?s ! ?p = CHR ''_'')"
        by (simp add: ident_char_def)
      from "1.IH" [OF c] c True inb show ?thesis
        by (simp add: scan_identifier.simps [of lx] drop_at advance_by_Suc)
    next
      case False
      with inb show ?thesis
        by (simp add: scan_identifier.simps [of lx] drop_at advance_by_0 ident_char_def)
    qed
  qed
qed

lemma scan_number_eq:
  "scan_number lx acc =
     (acc @ takeWhile number_char (drop (position lx) (input lx)),
      advance_by lx (length (takeWhile number_char (drop (position lx) (input lx)))))"
proof (induction lx acc rule: scan_number.induct)
  case (1 lx number)
  let ?p = "position lx" and ?s = "input lx"
  show ?case
  proof (cases "?p < length ?s")
    case False
    then show ?thesis
      by (simp add: scan_number.simps [of lx] advance_by_0)
  next
    case inb: True
    show ?thesis
    proof (cases "number_char (?s ! ?p)")
      case True
      with inb have c: "?p < length ?s \<and> (isdigit (?s ! ?p) \<or> ?s ! ?p = CHR ''.'')"
        by (simp add: number_char_def)
      from "1.IH" [OF c] c True inb show ?thesis
        by (simp add: scan_number.simps [of lx] drop_at advance_by_Suc)
    next
      case False
      with inb show ?thesis
        by (simp add: scan_number.simps [of lx] drop_at advance_by_0 number_char_def)
    qed
  qed
qed

lemma advance_by_fields:
  "input (advance_by lx n) = input lx"
  "line (advance_by lx n) = line lx"
  "position (advance_by lx n) = position lx + n"
  "column (advance_by lx n) = column lx + of_nat n"
  by (simp_all add: advance_by_def)

lemma drop_takeWhile: "drop (length (takeWhile P xs)) xs = dropWhile P xs"
  by (induction xs) auto

lemma ident_start_class:
  assumes "isalpha c \<or> c = CHR ''_''"
  shows "\<not> isspace c" and "ident_char c" and "\<not> isdigit c"
  using assms by (auto simp: isalpha_def isspace_def ident_char_def isalnum_def isdigit_def)

lemma digit_class:
  assumes "isdigit c"
  shows "\<not> isspace c" and "\<not> (isalpha c \<or> c = CHR ''_'')" and "number_char c"
  using assms by (auto simp: isalpha_def isspace_def number_char_def isdigit_def)

lemma tokenize_loop_identifier:
  assumes "position lx < length (input lx)"
    and "isalpha (input lx ! position lx) \<or> input lx ! position lx = CHR ''_''"
  shows "tokenize_loop lx toks =
     tokenize_loop
       (advance_by lx (length (takeWhile ident_char (drop (position lx) (input lx)))))
       (toks @
        [\<lparr>tok_type = (if isKeyword (takeWhile ident_char (drop (position lx) (input lx)))
                       then ''KEYWORD'' else ''IDENTIFIER''),
          tok_value = takeWhile ident_char (drop (position lx) (input lx)),
          tok_line = line lx, tok_column = column lx\<rparr>])"
  using assms ident_start_class(1) [OF assms(2)]
  by (simp add: tokenize_loop.simps [of lx] scan_identifier_eq advance_by_fields)

lemma tokenize_loop_number:
  assumes "position lx < length (input lx)"
    and "isdigit (input lx ! position lx)"
  shows "tokenize_loop lx toks =
     tokenize_loop
       (advance_by lx (length (takeWhile number_char (drop (position lx) (input lx)))))
       (toks @
        [\<lparr>tok_type = ''NUMBER'',
          tok_value = takeWhile number_char (drop (position lx) (input lx)),
          tok_line = line lx, tok_column = column lx\<rparr>])"
  using assms digit_class(1,2) [OF assms(2)]
  by (simp add: tokenize_loop.simps [of lx] scan_number_eq advance_by_fields)

lemma tokens_of_identifier:
  assumes "isalpha x \<or> x = CHR ''_''"
  shows "tokens_of l c (x # xs) =
     \<lparr>tok_type = (if isKeyword (takeWhile ident_char (x # xs))
                   then ''KEYWORD'' else ''IDENTIFIER''),
       tok_value = takeWhile ident_char (x # xs), tok_line = l, tok_column = c\<rparr>
     # tokens_of l (c + of_nat (length (takeWhile ident_char (x # xs))))
         (drop (length (takeWhile ident_char (x # xs))) (x # xs))"
  using assms ident_start_class [OF assms]
  by (simp add: tokens_of.simps(2) drop_takeWhile)

lemma tokens_of_number:
  assumes "isdigit x"
  shows "tokens_of l c (x # xs) =
     \<lparr>tok_type = ''NUMBER'',
       tok_value = takeWhile number_char (x # xs), tok_line = l, tok_column = c\<rparr>
     # tokens_of l (c + of_nat (length (takeWhile number_char (x # xs))))
         (drop (length (takeWhile number_char (x # xs))) (x # xs))"
  using assms digit_class [OF assms]
  by (simp add: tokens_of.simps(2) drop_takeWhile)

lemma tokenize_loop_tokens:
  "fst (tokenize_loop lx toks) =
     toks @ tokens_of (line lx) (column lx) (drop (position lx) (input lx))"
proof (induction lx toks rule: tokenize_loop.induct)
  case (1 lx tokens)
  let ?p = "position lx" and ?s = "input lx"
  show ?case
  proof (cases "?p < length ?s")
    case False
    then show ?thesis by (simp add: tokenize_loop.simps [of lx])
  next
    case inb: True
    note d = drop_at [OF inb]
    consider (space) "isspace (?s ! ?p)"
      | (ident) "\<not> isspace (?s ! ?p)" "isalpha (?s ! ?p) \<or> ?s ! ?p = CHR ''_''"
      | (number) "\<not> isspace (?s ! ?p)" "\<not> (isalpha (?s ! ?p) \<or> ?s ! ?p = CHR ''_'')"
          "isdigit (?s ! ?p)"
      | (other) "\<not> isspace (?s ! ?p)" "\<not> (isalpha (?s ! ?p) \<or> ?s ! ?p = CHR ''_'')"
          "\<not> isdigit (?s ! ?p)"
      by blast
    then show ?thesis
    proof cases
      case space
      from "1.IH"(1) [OF inb space] inb space show ?thesis
        by (simp add: tokenize_loop.simps [of lx] d tokens_of.simps(2))
    next
      case ident
      define w where "w = takeWhile ident_char (drop ?p ?s)"
      have sc: "(w, advance_by lx (length w)) = scan_identifier lx []"
        by (simp add: scan_identifier_eq w_def)
      have ih: "fst (tokenize_loop (advance_by lx (length w))
                  (tokens @ [\<lparr>tok_type = (if isKeyword w then ''KEYWORD'' else ''IDENTIFIER''),
                     tok_value = w, tok_line = line lx, tok_column = column lx\<rparr>])) =
             (tokens @ [\<lparr>tok_type = (if isKeyword w then ''KEYWORD'' else ''IDENTIFIER''),
                     tok_value = w, tok_line = line lx, tok_column = column lx\<rparr>]) @
             tokens_of (line lx) (column lx + of_nat (length w)) (drop (length w) (drop ?p ?s))"
        using "1.IH"(2) [OF inb ident sc] by (simp add: advance_by_fields add.commute)
      have view: "tokens_of (line lx) (column lx) (drop ?p ?s) =
             \<lparr>tok_type = (if isKeyword w then ''KEYWORD'' else ''IDENTIFIER''),
                     tok_value = w, tok_line = line lx, tok_column = column lx\<rparr> #
             tokens_of (line lx) (column lx + of_nat (length w)) (drop (length w) (drop ?p ?s))"
        unfolding w_def d using ident(2) by (rule tokens_of_identifier)
      show ?thesis
        unfolding tokenize_loop_identifier [OF inb ident(2), of tokens] w_def [symmetric]
        by (simp only: ih view append_assoc append_Cons append_Nil)
    next
      case number
      define w where "w = takeWhile number_char (drop ?p ?s)"
      have sc: "(w, advance_by lx (length w)) = scan_number lx []"
        by (simp add: scan_number_eq w_def)
      have ih: "fst (tokenize_loop (advance_by lx (length w))
                  (tokens @ [\<lparr>tok_type = ''NUMBER'',
                     tok_value = w, tok_line = line lx, tok_column = column lx\<rparr>])) =
             (tokens @ [\<lparr>tok_type = ''NUMBER'',
                     tok_value = w, tok_line = line lx, tok_column = column lx\<rparr>]) @
             tokens_of (line lx) (column lx + of_nat (length w)) (drop (length w) (drop ?p ?s))"
        using "1.IH"(3) [OF inb number sc] by (simp add: advance_by_fields add.commute)
      have view: "tokens_of (line lx) (column lx) (drop ?p ?s) =
             \<lparr>tok_type = ''NUMBER'',
                     tok_value = w, tok_line = line lx, tok_column = column lx\<rparr> #
             tokens_of (line lx) (column lx + of_nat (length w)) (drop (length w) (drop ?p ?s))"
        unfolding w_def d using number(3) by (rule tokens_of_number)
      show ?thesis
        unfolding tokenize_loop_number [OF inb number(3), of tokens] w_def [symmetric]
        by (simp only: ih view append_assoc append_Cons append_Nil)
    next
      case other
      from "1.IH"(4) [OF inb other] inb other show ?thesis
        by (simp add: tokenize_loop.simps [of lx] d tokens_of.simps(2))
    qed
  qed
qed

lemma tokenize_source_tokens: "tokenize_source source = tokens_of 1 1 source"
  by (simp add: tokenize_source_def tokenize_def tokenize_loop_tokens new_Lexer_def)

lemma map_of_neq_None_iff: "map_of ps k \<noteq> None \<longleftrightarrow> k \<in> fst ` set ps"
  by (simp add: map_of_eq_None_iff)

lemma isKeyword_iff:
  "isKeyword w \<longleftrightarrow>
     w \<in> {''int'', ''char'', ''float'', ''double'', ''void'', ''if'', ''else'', ''while'',
           ''for'', ''return'', ''printf''}"
  unfolding isKeyword_def keyword_table_def map_of_neq_None_iff
  by (simp only: list.set image_insert image_empty fst_conv)

lemmas char_class_defs =
  isspace_def isalpha_def isdigit_def isalnum_def ispunct_def ident_char_def number_char_def

section \<open>Operators and punctuation\<close>

text \<open>
  C1.  The fallback branch consumes one character and asks \<^verbatim>\<open>ispunct\<close> for the token
  type.  Every operator character of the pattern table (\<^verbatim>\<open>+ - * / % = < > !\<close>) is a
  punctuation character for \<^verbatim>\<open>ispunct\<close>, so each of them is emitted as a
  \<^verbatim>\<open>PUNCTUATION\<close> token and not as an \<^verbatim>\<open>OPERATOR\<close> token.
\<close>

theorem operator_characters_tokenize_as_punctuation:
  "map (\<lambda>t. (tok_type t, tok_value t)) (tokenize_source ''+-*/%=<>!'') =
     [(''PUNCTUATION'', ''+''), (''PUNCTUATION'', ''-''), (''PUNCTUATION'', ''*''),
      (''PUNCTUATION'', ''/''), (''PUNCTUATION'', ''%''), (''PUNCTUATION'', ''=''),
      (''PUNCTUATION'', ''<''), (''PUNCTUATION'', ''>''), (''PUNCTUATION'', ''!'')]"
  by (simp add: tokenize_source_tokens tokens_of.simps(2)
      isspace_def isalpha_def isdigit_def ispunct_def)

section \<open>Keywords, identifiers and numbers\<close>

text \<open>
  C5.  Wherever the loop stands at a letter or an underscore, the iteration takes the
  longest run of alphanumeric characters and underscores as the lexeme and emits one
  token for it: a \<^verbatim>\<open>KEYWORD\<close> exactly when the whole lexeme is one of the eleven
  keywords, an \<^verbatim>\<open>IDENTIFIER\<close> otherwise.  So \<^verbatim>\<open>int\<close> is one keyword token and
  \<^verbatim>\<open>printf2\<close> is one identifier token.
\<close>

theorem keyword_iff_exact_member:
  "(position lx < length (input lx) \<and>
    (isalpha (input lx ! position lx) \<or> input lx ! position lx = CHR ''_'') \<longrightarrow>
      tokenize_loop lx toks =
        tokenize_loop
          (advance_by lx (length (takeWhile ident_char (drop (position lx) (input lx)))))
          (toks @
           [\<lparr>tok_type =
               (if takeWhile ident_char (drop (position lx) (input lx)) \<in>
                     {''int'', ''char'', ''float'', ''double'', ''void'', ''if'', ''else'',
                      ''while'', ''for'', ''return'', ''printf''}
                then ''KEYWORD'' else ''IDENTIFIER''),
             tok_value = takeWhile ident_char (drop (position lx) (input lx)),
             tok_line = line lx, tok_column = column lx\<rparr>])) \<and>
   tokenize_source ''int'' =
     [\<lparr>tok_type = ''KEYWORD'', tok_value = ''int'', tok_line = 1, tok_column = 1\<rparr>] \<and>
   tokenize_source ''printf2'' =
     [\<lparr>tok_type = ''IDENTIFIER'', tok_value = ''printf2'', tok_line = 1, tok_column = 1\<rparr>]"
proof (intro conjI impI)
  assume a: "position lx < length (input lx) \<and>
    (isalpha (input lx ! position lx) \<or> input lx ! position lx = CHR ''_'')"
  show "tokenize_loop lx toks =
        tokenize_loop
          (advance_by lx (length (takeWhile ident_char (drop (position lx) (input lx)))))
          (toks @
           [\<lparr>tok_type =
               (if takeWhile ident_char (drop (position lx) (input lx)) \<in>
                     {''int'', ''char'', ''float'', ''double'', ''void'', ''if'', ''else'',
                      ''while'', ''for'', ''return'', ''printf''}
                then ''KEYWORD'' else ''IDENTIFIER''),
             tok_value = takeWhile ident_char (drop (position lx) (input lx)),
             tok_line = line lx, tok_column = column lx\<rparr>])"
    unfolding isKeyword_iff [symmetric]
    using a by (intro tokenize_loop_identifier) simp_all
next
  show "tokenize_source ''int'' =
     [\<lparr>tok_type = ''KEYWORD'', tok_value = ''int'', tok_line = 1, tok_column = 1\<rparr>]"
    by (simp add: tokenize_source_tokens tokens_of.simps(2) char_class_defs isKeyword_iff)
next
  show "tokenize_source ''printf2'' =
     [\<lparr>tok_type = ''IDENTIFIER'', tok_value = ''printf2'', tok_line = 1, tok_column = 1\<rparr>]"
    by (simp add: tokenize_source_tokens tokens_of.simps(2) char_class_defs isKeyword_iff)
qed

text \<open>The theorem at the fifth character of \<^verbatim>\<open>x = _if9;\<close>: the lexeme is \<^verbatim>\<open>_if9\<close>, an
  identifier although it contains the keyword \<^verbatim>\<open>if\<close>.\<close>

theorem keyword_iff_exact_member_witness:
  "position (advance_by (new_Lexer ''x = _if9;'') 4)
     < length (input (advance_by (new_Lexer ''x = _if9;'') 4)) \<and>
   (isalpha (input (advance_by (new_Lexer ''x = _if9;'') 4) !
             position (advance_by (new_Lexer ''x = _if9;'') 4)) \<or>
    input (advance_by (new_Lexer ''x = _if9;'') 4) !
      position (advance_by (new_Lexer ''x = _if9;'') 4) = CHR ''_'') \<and>
   tokenize_loop (advance_by (new_Lexer ''x = _if9;'') 4) [] =
     tokenize_loop (advance_by (advance_by (new_Lexer ''x = _if9;'') 4) 4)
       [\<lparr>tok_type = ''IDENTIFIER'', tok_value = ''_if9'', tok_line = 1, tok_column = 5\<rparr>]"
  using keyword_iff_exact_member [of "advance_by (new_Lexer ''x = _if9;'') 4" "[]"]
  by (simp add: new_Lexer_def advance_by_def char_class_defs)

text \<open>
  C7.  Wherever the loop stands at a digit, the iteration takes the longest run of digits
  and dots as the lexeme, however many dots it holds, and emits one \<^verbatim>\<open>NUMBER\<close> token
  for it.  So \<^verbatim>\<open>3.14.5\<close> is a single number token.
\<close>

theorem number_takes_digits_and_dots:
  "(position lx < length (input lx) \<and> isdigit (input lx ! position lx) \<longrightarrow>
      tokenize_loop lx toks =
        tokenize_loop
          (advance_by lx (length (takeWhile number_char (drop (position lx) (input lx)))))
          (toks @
           [\<lparr>tok_type = ''NUMBER'',
             tok_value = takeWhile number_char (drop (position lx) (input lx)),
             tok_line = line lx, tok_column = column lx\<rparr>])) \<and>
   (\<forall>c. number_char c \<longleftrightarrow> isdigit c \<or> c = CHR ''.'') \<and>
   tokenize_source ''3.14.5'' =
     [\<lparr>tok_type = ''NUMBER'', tok_value = ''3.14.5'', tok_line = 1, tok_column = 1\<rparr>]"
proof (intro conjI impI allI)
  assume a: "position lx < length (input lx) \<and> isdigit (input lx ! position lx)"
  then show "tokenize_loop lx toks =
        tokenize_loop
          (advance_by lx (length (takeWhile number_char (drop (position lx) (input lx)))))
          (toks @
           [\<lparr>tok_type = ''NUMBER'',
             tok_value = takeWhile number_char (drop (position lx) (input lx)),
             tok_line = line lx, tok_column = column lx\<rparr>])"
    by (intro tokenize_loop_number) simp_all
next
  fix c show "number_char c \<longleftrightarrow> isdigit c \<or> c = CHR ''.''"
    by (simp add: number_char_def)
next
  show "tokenize_source ''3.14.5'' =
     [\<lparr>tok_type = ''NUMBER'', tok_value = ''3.14.5'', tok_line = 1, tok_column = 1\<rparr>]"
    by (simp add: tokenize_source_tokens tokens_of.simps(2) char_class_defs)
qed

text \<open>The theorem at the fifth character of \<^verbatim>\<open>x = 1..2.;\<close>.\<close>

theorem number_takes_digits_and_dots_witness:
  "position (advance_by (new_Lexer ''x = 1..2.;'') 4)
     < length (input (advance_by (new_Lexer ''x = 1..2.;'') 4)) \<and>
   isdigit (input (advance_by (new_Lexer ''x = 1..2.;'') 4) !
            position (advance_by (new_Lexer ''x = 1..2.;'') 4)) \<and>
   tokenize_loop (advance_by (new_Lexer ''x = 1..2.;'') 4) [] =
     tokenize_loop (advance_by (advance_by (new_Lexer ''x = 1..2.;'') 4) 5)
       [\<lparr>tok_type = ''NUMBER'', tok_value = ''1..2.'', tok_line = 1, tok_column = 5\<rparr>]"
  using number_takes_digits_and_dots [of "advance_by (new_Lexer ''x = 1..2.;'') 4" "[]"]
  by (simp add: new_Lexer_def advance_by_def char_class_defs)

section \<open>Coverage of the input and position tracking\<close>

lemma ident_char_class: "ident_char c \<Longrightarrow> \<not> isspace c \<and> c \<noteq> CHR 0x0A"
  by (auto simp: char_class_defs)

lemma number_char_class: "number_char c \<Longrightarrow> \<not> isspace c \<and> c \<noteq> CHR 0x0A"
  by (auto simp: char_class_defs)

lemma newline_isspace: "isspace (CHR 0x0A)"
  by (simp add: isspace_def)

lemma filter_takeWhile_dropWhile:
  "(\<And>y. Q y \<Longrightarrow> P y) \<Longrightarrow> filter P xs = takeWhile Q xs @ filter P (dropWhile Q xs)"
  by (induction xs) auto

lemma concat_tokens_of:
  "concat (map tok_value (tokens_of l c s)) = filter (\<lambda>x. \<not> isspace x) s"
proof (induction l c s rule: tokens_of.induct)
  case (1 l c)
  show ?case by simp
next
  case (2 l c x xs)
  consider (space) "isspace x"
    | (ident) "\<not> isspace x" "isalpha x \<or> x = CHR ''_''"
    | (number) "\<not> isspace x" "\<not> (isalpha x \<or> x = CHR ''_'')" "isdigit x"
    | (other) "\<not> isspace x" "\<not> (isalpha x \<or> x = CHR ''_'')" "\<not> isdigit x"
    by blast
  then show ?case
  proof cases
    case space
    with "2.IH"(1,2) show ?thesis by (auto simp: tokens_of.simps(2))
  next
    case ident
    have "filter (\<lambda>x. \<not> isspace x) xs =
        takeWhile ident_char xs @ filter (\<lambda>x. \<not> isspace x) (dropWhile ident_char xs)"
      by (rule filter_takeWhile_dropWhile) (simp add: ident_char_class)
    with "2.IH"(3) [OF ident] ident show ?thesis by (simp add: tokens_of.simps(2))
  next
    case number
    have "filter (\<lambda>x. \<not> isspace x) xs =
        takeWhile number_char xs @ filter (\<lambda>x. \<not> isspace x) (dropWhile number_char xs)"
      by (rule filter_takeWhile_dropWhile) (simp add: number_char_class)
    with "2.IH"(4) [OF number] number show ?thesis by (simp add: tokens_of.simps(2))
  next
    case other
    with "2.IH"(5) [OF other] show ?thesis by (simp add: tokens_of.simps(2))
  qed
qed

lemma tokens_of_nonempty: "t \<in> set (tokens_of l c s) \<Longrightarrow> tok_value t \<noteq> []"
proof (induction l c s rule: tokens_of.induct)
  case (1 l c)
  then show ?case by simp
next
  case (2 l c x xs)
  then show ?case
    by (auto simp: tokens_of.simps(2) split: if_splits)
qed

lemma foldl_advance_same_line:
  "\<forall>y\<in>set w. y \<noteq> CHR 0x0A \<Longrightarrow> foldl advance (l, c) w = (l, c + of_nat (length w))"
  by (induction w arbitrary: c) (simp_all add: advance_def ac_simps)

lemma takeWhile_ident_no_newline: "\<forall>y\<in>set (takeWhile ident_char xs). y \<noteq> CHR 0x0A"
proof
  fix y assume "y \<in> set (takeWhile ident_char xs)"
  then have "ident_char y" by (rule set_takeWhileD [THEN conjunct2])
  then show "y \<noteq> CHR 0x0A" using ident_char_class by blast
qed

lemma takeWhile_number_no_newline: "\<forall>y\<in>set (takeWhile number_char xs). y \<noteq> CHR 0x0A"
proof
  fix y assume "y \<in> set (takeWhile number_char xs)"
  then have "number_char y" by (rule set_takeWhileD [THEN conjunct2])
  then show "y \<noteq> CHR 0x0A" using number_char_class by blast
qed

lemma foldl_advance_drop:
  assumes "p < length s" and "w = takeWhile P (drop p s)" and "\<forall>y\<in>set w. y \<noteq> CHR 0x0A"
  shows "foldl advance (l, c) (drop p s) =
         foldl advance (l, c + of_nat (length w)) (drop (p + length w) s)"
proof -
  have "drop p s = w @ drop (length w) (drop p s)"
    unfolding assms(2) drop_takeWhile by simp
  then have "foldl advance (l, c) (drop p s) =
      foldl advance (foldl advance (l, c) w) (drop (length w) (drop p s))"
    by (metis foldl_append)
  also have "foldl advance (l, c) w = (l, c + of_nat (length w))"
    by (rule foldl_advance_same_line [OF assms(3)])
  finally show ?thesis by (simp add: add.commute)
qed

lemma takeWhile_length_le: "p + length (takeWhile P (drop p s)) \<le> length s \<or> length s < p"
proof -
  have "length (takeWhile P (drop p s)) \<le> length (drop p s)"
    by (rule length_takeWhile_le)
  then show ?thesis by auto
qed

lemma tokenize_loop_final:
  "position lx \<le> length (input lx) \<Longrightarrow>
   snd (tokenize_loop lx toks) =
     \<lparr>input = input lx, position = length (input lx),
      line = fst (foldl advance (line lx, column lx) (drop (position lx) (input lx))),
      column = snd (foldl advance (line lx, column lx) (drop (position lx) (input lx)))\<rparr>"
proof (induction lx toks rule: tokenize_loop.induct)
  case (1 lx tokens)
  let ?p = "position lx" and ?s = "input lx"
  show ?case
  proof (cases "?p < length ?s")
    case False
    with "1.prems" show ?thesis by (simp add: tokenize_loop.simps [of lx])
  next
    case inb: True
    note d = drop_at [OF inb]
    consider (space) "isspace (?s ! ?p)"
      | (ident) "\<not> isspace (?s ! ?p)" "isalpha (?s ! ?p) \<or> ?s ! ?p = CHR ''_''"
      | (number) "\<not> isspace (?s ! ?p)" "\<not> (isalpha (?s ! ?p) \<or> ?s ! ?p = CHR ''_'')"
          "isdigit (?s ! ?p)"
      | (other) "\<not> isspace (?s ! ?p)" "\<not> (isalpha (?s ! ?p) \<or> ?s ! ?p = CHR ''_'')"
          "\<not> isdigit (?s ! ?p)"
      by blast
    then show ?thesis
    proof cases
      case space
      from "1.IH"(1) [OF inb space] inb space show ?thesis
        by (simp add: tokenize_loop.simps [of lx] d advance_def)
    next
      case ident
      define w where "w = takeWhile ident_char (drop ?p ?s)"
      have sc: "(w, advance_by lx (length w)) = scan_identifier lx []"
        by (simp add: scan_identifier_eq w_def)
      have le: "position (advance_by lx (length w)) \<le> length (input (advance_by lx (length w)))"
        using takeWhile_length_le [of ?p ident_char ?s] inb
        by (simp add: advance_by_fields w_def)
      have nl: "\<forall>y\<in>set w. y \<noteq> CHR 0x0A"
        unfolding w_def by (rule takeWhile_ident_no_newline)
      show ?thesis
        unfolding tokenize_loop_identifier [OF inb ident(2), of tokens] w_def [symmetric]
        using "1.IH"(2) [OF inb ident sc le]
        by (simp add: advance_by_fields foldl_advance_drop [OF inb w_def nl])
    next
      case number
      define w where "w = takeWhile number_char (drop ?p ?s)"
      have sc: "(w, advance_by lx (length w)) = scan_number lx []"
        by (simp add: scan_number_eq w_def)
      have le: "position (advance_by lx (length w)) \<le> length (input (advance_by lx (length w)))"
        using takeWhile_length_le [of ?p number_char ?s] inb
        by (simp add: advance_by_fields w_def)
      have nl: "\<forall>y\<in>set w. y \<noteq> CHR 0x0A"
        unfolding w_def by (rule takeWhile_number_no_newline)
      show ?thesis
        unfolding tokenize_loop_number [OF inb number(3), of tokens] w_def [symmetric]
        using "1.IH"(3) [OF inb number sc le]
        by (simp add: advance_by_fields foldl_advance_drop [OF inb w_def nl])
    next
      case other
      then have xn: "?s ! ?p \<noteq> CHR 0x0A" using newline_isspace by auto
      from "1.IH"(4) [OF inb other] inb other xn show ?thesis
        by (simp add: tokenize_loop.simps [of lx] d advance_def)
    qed
  qed
qed

text \<open>
  C3.  \<^verbatim>\<open>tokenize\<close> is a total function (its loops are defined with their termination
  proofs and read \<^verbatim>\<open>input[position]\<close> only below the length of the input).  The
  lexemes of the tokens, concatenated in order, are exactly the characters of the input
  that are not whitespace; so the lengths of the lexemes and the number of whitespace
  characters add up to the length of the input, no lexeme is empty, and the lexer ends
  with \<^verbatim>\<open>position\<close> at the end of the input.
\<close>

theorem tokenize_covers_input:
  "concat (map tok_value (tokenize_source s)) = filter (\<lambda>c. \<not> isspace c) s \<and>
   sum_list (map (\<lambda>t. length (tok_value t)) (tokenize_source s)) + length (filter isspace s)
     = length s \<and>
   [] \<notin> set (map tok_value (tokenize_source s)) \<and>
   position (snd (tokenize (new_Lexer s))) = length s"
proof (intro conjI)
  show c: "concat (map tok_value (tokenize_source s)) = filter (\<lambda>c. \<not> isspace c) s"
    by (simp add: tokenize_source_tokens concat_tokens_of)
  have "sum_list (map (\<lambda>t. length (tok_value t)) (tokenize_source s)) =
      length (concat (map tok_value (tokenize_source s)))"
    by (simp add: length_concat comp_def)
  also have "\<dots> = length (filter (\<lambda>c. \<not> isspace c) s)"
    by (simp only: c)
  finally show "sum_list (map (\<lambda>t. length (tok_value t)) (tokenize_source s)) +
      length (filter isspace s) = length s"
    using sum_length_filter_compl [of isspace s] by simp
  show "[] \<notin> set (map tok_value (tokenize_source s))"
  proof
    assume "[] \<in> set (map tok_value (tokenize_source s))"
    then obtain t where "t \<in> set (tokens_of 1 1 s)" and "tok_value t = []"
      by (auto simp: tokenize_source_tokens)
    then show False using tokens_of_nonempty by blast
  qed
  show "position (snd (tokenize (new_Lexer s))) = length s"
    by (simp add: tokenize_def tokenize_loop_final new_Lexer_def)
qed

lemma takeWhile_holds: "\<forall>y\<in>set (takeWhile P xs). P y"
  by (auto dest: set_takeWhileD)

lemma tokens_of_starts:
  "t \<in> set (tokens_of l c s) \<Longrightarrow> tok_value t \<noteq> [] \<and> \<not> isspace (hd (tok_value t))"
proof (induction l c s rule: tokens_of.induct)
  case (1 l c)
  then show ?case by simp
next
  case (2 l c x xs)
  then show ?case
    by (auto simp: tokens_of.simps(2) split: if_splits)
qed

lemma prefix_pinned_aux:
  assumes "p = p' @ q" and "q @ v @ r = v @ r'"
    and "filter (\<lambda>x. \<not> isspace x) p = filter (\<lambda>x. \<not> isspace x) p'"
    and "v \<noteq> []" and "\<not> isspace (hd v)"
  shows "q = []"
proof (rule ccontr)
  assume "q \<noteq> []"
  then have "hd q \<in> set q" by simp
  moreover from assms(1,3) have "filter (\<lambda>x. \<not> isspace x) q = []" by simp
  ultimately have "isspace (hd q)" by (simp add: filter_empty_conv)
  moreover from assms(2) \<open>q \<noteq> []\<close> assms(4) have "hd q = hd v"
    by (metis hd_append2)
  ultimately show False using assms(5) by simp
qed

lemma prefix_pinned:
  assumes "p @ v @ r = p' @ v @ r'"
    and "filter (\<lambda>x. \<not> isspace x) p = filter (\<lambda>x. \<not> isspace x) p'"
    and "v \<noteq> []" and "\<not> isspace (hd v)"
  shows "p = p'"
proof -
  have "\<exists>q. (p = p' @ q \<and> q @ v @ r = v @ r') \<or> (p @ q = p' \<and> v @ r = q @ v @ r')"
    using assms(1) unfolding append_eq_append_conv2 [of p "v @ r" p' "v @ r'"] .
  then obtain q where
    "(p = p' @ q \<and> q @ v @ r = v @ r') \<or> (p @ q = p' \<and> v @ r = q @ v @ r')" ..
  then show ?thesis
  proof
    assume a: "p = p' @ q \<and> q @ v @ r = v @ r'"
    then have "q = []" using prefix_pinned_aux [of p p' q v r r'] assms(2,3,4) by blast
    with a show ?thesis by simp
  next
    assume a: "p @ q = p' \<and> v @ r = q @ v @ r'"
    then have "q = []"
      using prefix_pinned_aux [of p' p q v r' r] assms(2,3,4) by (metis)
    with a show ?thesis by simp
  qed
qed

lemma indexed_step:
  assumes ts: "ts = t # R" and s: "s = w @ rest" and tv: "tok_value t = w"
    and pos: "tok_line t = l" "tok_column t = c"
    and ns: "filter (\<lambda>x. \<not> isspace x) w = w"
    and IH: "\<And>j. j < length R \<Longrightarrow>
        \<exists>p r. rest = p @ tok_value (R ! j) @ r \<and>
          filter (\<lambda>x. \<not> isspace x) p = concat (map tok_value (take j R)) \<and>
          (tok_line (R ! j), tok_column (R ! j)) = foldl advance (foldl advance (l, c) w) p"
    and i: "i < length ts"
  shows "\<exists>p r. s = p @ tok_value (ts ! i) @ r \<and>
          filter (\<lambda>x. \<not> isspace x) p = concat (map tok_value (take i ts)) \<and>
          (tok_line (ts ! i), tok_column (ts ! i)) = foldl advance (l, c) p"
proof (cases i)
  case 0
  then have "s = [] @ tok_value (ts ! i) @ rest \<and>
      filter (\<lambda>x. \<not> isspace x) [] = concat (map tok_value (take i ts)) \<and>
      (tok_line (ts ! i), tok_column (ts ! i)) = foldl advance (l, c) []"
    using ts s tv pos by simp
  then show ?thesis by blast
next
  case (Suc j)
  with i ts have "j < length R" by simp
  from IH [OF this] obtain p r where
    "rest = p @ tok_value (R ! j) @ r"
    "filter (\<lambda>x. \<not> isspace x) p = concat (map tok_value (take j R))"
    "(tok_line (R ! j), tok_column (R ! j)) = foldl advance (foldl advance (l, c) w) p"
    by blast
  then have "s = (w @ p) @ tok_value (ts ! i) @ r \<and>
      filter (\<lambda>x. \<not> isspace x) (w @ p) = concat (map tok_value (take i ts)) \<and>
      (tok_line (ts ! i), tok_column (ts ! i)) = foldl advance (l, c) (w @ p)"
    using ts s tv ns Suc by simp
  then show ?thesis by blast
qed

lemma filter_nonspace_run:
  "\<forall>y\<in>set w. \<not> isspace y \<Longrightarrow> filter (\<lambda>x. \<not> isspace x) w = w"
  by (simp add: filter_id_conv)

lemma tokens_of_indexed:
  "i < length (tokens_of l c s) \<Longrightarrow>
     \<exists>p r. s = p @ tok_value (tokens_of l c s ! i) @ r \<and>
       filter (\<lambda>x. \<not> isspace x) p = concat (map tok_value (take i (tokens_of l c s))) \<and>
       (tok_line (tokens_of l c s ! i), tok_column (tokens_of l c s ! i)) =
         foldl advance (l, c) p"
proof (induction l c s arbitrary: i rule: tokens_of.induct)
  case (1 l c)
  then show ?case by simp
next
  case (2 l c x xs)
  consider (space) "isspace x"
    | (ident) "\<not> isspace x" "isalpha x \<or> x = CHR ''_''"
    | (number) "\<not> isspace x" "\<not> (isalpha x \<or> x = CHR ''_'')" "isdigit x"
    | (other) "\<not> isspace x" "\<not> (isalpha x \<or> x = CHR ''_'')" "\<not> isdigit x"
    by blast
  then show ?case
  proof cases
    case space
    define l' c' where "l' = fst (advance (l, c) x)" and "c' = snd (advance (l, c) x)"
    have T: "tokens_of l c (x # xs) = tokens_of l' c' xs"
      using space by (simp add: tokens_of.simps(2) [of l c] l'_def c'_def advance_def)
    have IH: "\<exists>p r. xs = p @ tok_value (tokens_of l' c' xs ! j) @ r \<and>
          filter (\<lambda>x. \<not> isspace x) p = concat (map tok_value (take j (tokens_of l' c' xs))) \<and>
          (tok_line (tokens_of l' c' xs ! j), tok_column (tokens_of l' c' xs ! j)) =
            foldl advance (l', c') p"
      if j: "j < length (tokens_of l' c' xs)" for j
    proof (cases "x = CHR 0x0A")
      case True
      have lc: "l' = l + 1" "c' = 1"
        using True by (simp_all add: l'_def c'_def advance_def)
      from j show ?thesis
        unfolding lc by (rule "2.IH"(1) [OF space True])
    next
      case False
      have lc: "l' = l" "c' = c + 1"
        using False by (simp_all add: l'_def c'_def advance_def)
      from j show ?thesis
        unfolding lc by (rule "2.IH"(2) [OF space False])
    qed
    from "2.prems" have "i < length (tokens_of l' c' xs)" by (simp add: T)
    from IH [OF this] obtain p r where
      "xs = p @ tok_value (tokens_of l' c' xs ! i) @ r"
      "filter (\<lambda>x. \<not> isspace x) p = concat (map tok_value (take i (tokens_of l' c' xs)))"
      "(tok_line (tokens_of l' c' xs ! i), tok_column (tokens_of l' c' xs ! i)) =
            foldl advance (l', c') p"
      by blast
    then have "x # xs = (x # p) @ tok_value (tokens_of l c (x # xs) ! i) @ r \<and>
       filter (\<lambda>x. \<not> isspace x) (x # p) =
         concat (map tok_value (take i (tokens_of l c (x # xs)))) \<and>
       (tok_line (tokens_of l c (x # xs) ! i), tok_column (tokens_of l c (x # xs) ! i)) =
         foldl advance (l, c) (x # p)"
      using space by (simp add: T l'_def c'_def)
    then show ?thesis by blast
  next
    case ident
    define u where "u = takeWhile ident_char xs"
    define R where "R = tokens_of l (c + of_nat (Suc (length u))) (dropWhile ident_char xs)"
    define k where "k = (if isKeyword (x # u) then ''KEYWORD'' else ''IDENTIFIER'')"
    have T: "tokens_of l c (x # xs) =
        \<lparr>tok_type = k, tok_value = x # u, tok_line = l, tok_column = c\<rparr> # R"
      using ident by (simp add: tokens_of.simps(2) [of l c] u_def R_def k_def)
    from ident have xn: "x \<noteq> CHR 0x0A" using newline_isspace by auto
    have nl: "\<forall>y\<in>set (x # u). y \<noteq> CHR 0x0A"
      using xn takeWhile_ident_no_newline [of xs] by (simp add: u_def)
    have after: "foldl advance (l, c) (x # u) = (l, c + of_nat (Suc (length u)))"
      using foldl_advance_same_line [OF nl, of l c] by simp
    have "\<forall>y\<in>set u. \<not> isspace y"
      using takeWhile_holds [of ident_char xs] ident_char_class by (auto simp: u_def)
    with ident(1) have ns: "filter (\<lambda>x. \<not> isspace x) (x # u) = x # u"
      by (intro filter_nonspace_run) simp
    have s: "x # xs = (x # u) @ dropWhile ident_char xs"
      by (simp add: u_def)
    show ?thesis
    proof (rule indexed_step [OF T s _ _ _ ns _ "2.prems"])
      fix j assume "j < length R"
      then show "\<exists>p r. dropWhile ident_char xs = p @ tok_value (R ! j) @ r \<and>
          filter (\<lambda>x. \<not> isspace x) p = concat (map tok_value (take j R)) \<and>
          (tok_line (R ! j), tok_column (R ! j)) = foldl advance (foldl advance (l, c) (x # u)) p"
        unfolding after using "2.IH"(3) [OF ident, of j] by (simp add: R_def u_def)
    qed simp_all
  next
    case number
    define u where "u = takeWhile number_char xs"
    define R where "R = tokens_of l (c + of_nat (Suc (length u))) (dropWhile number_char xs)"
    have T: "tokens_of l c (x # xs) =
        \<lparr>tok_type = ''NUMBER'', tok_value = x # u, tok_line = l, tok_column = c\<rparr> # R"
      using number by (simp add: tokens_of.simps(2) [of l c] u_def R_def)
    from number have xn: "x \<noteq> CHR 0x0A" using newline_isspace by auto
    have nl: "\<forall>y\<in>set (x # u). y \<noteq> CHR 0x0A"
      using xn takeWhile_number_no_newline [of xs] by (simp add: u_def)
    have after: "foldl advance (l, c) (x # u) = (l, c + of_nat (Suc (length u)))"
      using foldl_advance_same_line [OF nl, of l c] by simp
    have "\<forall>y\<in>set u. \<not> isspace y"
      using takeWhile_holds [of number_char xs] number_char_class by (auto simp: u_def)
    with number(1) have ns: "filter (\<lambda>x. \<not> isspace x) (x # u) = x # u"
      by (intro filter_nonspace_run) simp
    have s: "x # xs = (x # u) @ dropWhile number_char xs"
      by (simp add: u_def)
    show ?thesis
    proof (rule indexed_step [OF T s _ _ _ ns _ "2.prems"])
      fix j assume "j < length R"
      then show "\<exists>p r. dropWhile number_char xs = p @ tok_value (R ! j) @ r \<and>
          filter (\<lambda>x. \<not> isspace x) p = concat (map tok_value (take j R)) \<and>
          (tok_line (R ! j), tok_column (R ! j)) = foldl advance (foldl advance (l, c) (x # u)) p"
        unfolding after using "2.IH"(4) [OF number, of j] by (simp add: R_def u_def)
    qed simp_all
  next
    case other
    define R where "R = tokens_of l (c + 1) xs"
    define k where "k = (if ispunct x then ''PUNCTUATION'' else ''OPERATOR'')"
    have T: "tokens_of l c (x # xs) =
        \<lparr>tok_type = k, tok_value = [x], tok_line = l, tok_column = c\<rparr> # R"
      using other by (simp add: tokens_of.simps(2) [of l c] R_def k_def)
    from other have xn: "x \<noteq> CHR 0x0A" using newline_isspace by auto
    have after: "foldl advance (l, c) [x] = (l, c + 1)"
      using xn by (simp add: advance_def)
    from other(1) have ns: "filter (\<lambda>x. \<not> isspace x) [x] = [x]" by simp
    have s: "x # xs = [x] @ xs" by simp
    show ?thesis
    proof (rule indexed_step [OF T s _ _ _ ns _ "2.prems"])
      fix j assume "j < length R"
      then show "\<exists>p r. xs = p @ tok_value (R ! j) @ r \<and>
          filter (\<lambda>x. \<not> isspace x) p = concat (map tok_value (take j R)) \<and>
          (tok_line (R ! j), tok_column (R ! j)) = foldl advance (foldl advance (l, c) [x]) p"
        unfolding after using "2.IH"(5) [OF other, of j] by (simp add: R_def)
    qed simp_all
  qed
qed

lemma tokenize_loop_whitespace:
  assumes "position lx < length (input lx)" and "isspace (input lx ! position lx)"
  shows "tokenize_loop lx toks =
     tokenize_loop
       (lx\<lparr>line := fst (advance (line lx, column lx) (input lx ! position lx)),
           column := snd (advance (line lx, column lx) (input lx ! position lx)),
           position := position lx + 1\<rparr>) toks"
  using assms by (simp add: tokenize_loop.simps [of lx] advance_def)

lemma tokenize_loop_token:
  assumes inb: "position lx < length (input lx)" and ns: "\<not> isspace (input lx ! position lx)"
  shows "\<exists>n t. 0 < n \<and>
      tokenize_loop lx toks = tokenize_loop (advance_by lx n) (toks @ [t]) \<and>
      tok_value t = take n (drop (position lx) (input lx)) \<and>
      tok_line t = line lx \<and> tok_column t = column lx \<and>
      CHR 0x0A \<notin> set (tok_value t)"
proof -
  let ?p = "position lx" and ?s = "input lx"
  note d = drop_at [OF inb]
  consider (ident) "isalpha (?s ! ?p) \<or> ?s ! ?p = CHR ''_''"
    | (number) "\<not> (isalpha (?s ! ?p) \<or> ?s ! ?p = CHR ''_'')" "isdigit (?s ! ?p)"
    | (other) "\<not> (isalpha (?s ! ?p) \<or> ?s ! ?p = CHR ''_'')" "\<not> isdigit (?s ! ?p)"
    by blast
  then show ?thesis
  proof cases
    case ident
    define w where "w = takeWhile ident_char (drop ?p ?s)"
    define t where "t = \<lparr>tok_type = (if isKeyword w then ''KEYWORD'' else ''IDENTIFIER''),
        tok_value = w, tok_line = line lx, tok_column = column lx\<rparr>"
    have "w = ?s ! ?p # takeWhile ident_char (drop (Suc ?p) ?s)"
      using ident_start_class(2) [OF ident] by (simp add: w_def d)
    then have n: "0 < length w" by simp
    have "tokenize_loop lx toks = tokenize_loop (advance_by lx (length w)) (toks @ [t])"
      unfolding w_def t_def by (rule tokenize_loop_identifier [OF inb ident])
    moreover have "tok_value t = take (length w) (drop ?p ?s)"
      by (simp add: t_def w_def takeWhile_eq_take [symmetric])
    moreover have "CHR 0x0A \<notin> set (tok_value t)"
      using takeWhile_ident_no_newline [of "drop ?p ?s"] by (auto simp: t_def w_def)
    ultimately have "0 < length w \<and>
        tokenize_loop lx toks = tokenize_loop (advance_by lx (length w)) (toks @ [t]) \<and>
        tok_value t = take (length w) (drop ?p ?s) \<and>
        tok_line t = line lx \<and> tok_column t = column lx \<and> CHR 0x0A \<notin> set (tok_value t)"
      using n by (simp add: t_def)
    then show ?thesis by blast
  next
    case number
    define w where "w = takeWhile number_char (drop ?p ?s)"
    define t where "t = \<lparr>tok_type = ''NUMBER'',
        tok_value = w, tok_line = line lx, tok_column = column lx\<rparr>"
    have "w = ?s ! ?p # takeWhile number_char (drop (Suc ?p) ?s)"
      using digit_class(3) [OF number(2)] by (simp add: w_def d)
    then have n: "0 < length w" by simp
    have "tokenize_loop lx toks = tokenize_loop (advance_by lx (length w)) (toks @ [t])"
      unfolding w_def t_def by (rule tokenize_loop_number [OF inb number(2)])
    moreover have "tok_value t = take (length w) (drop ?p ?s)"
      by (simp add: t_def w_def takeWhile_eq_take [symmetric])
    moreover have "CHR 0x0A \<notin> set (tok_value t)"
      using takeWhile_number_no_newline [of "drop ?p ?s"] by (auto simp: t_def w_def)
    ultimately have "0 < length w \<and>
        tokenize_loop lx toks = tokenize_loop (advance_by lx (length w)) (toks @ [t]) \<and>
        tok_value t = take (length w) (drop ?p ?s) \<and>
        tok_line t = line lx \<and> tok_column t = column lx \<and> CHR 0x0A \<notin> set (tok_value t)"
      using n by (simp add: t_def)
    then show ?thesis by blast
  next
    case other
    define t where "t = \<lparr>tok_type = (if ispunct (?s ! ?p) then ''PUNCTUATION'' else ''OPERATOR''),
        tok_value = [?s ! ?p], tok_line = line lx, tok_column = column lx\<rparr>"
    from ns have xn: "?s ! ?p \<noteq> CHR 0x0A" using newline_isspace by auto
    have a: "tokenize_loop lx toks = tokenize_loop (advance_by lx 1) (toks @ [t])"
      using inb ns other by (simp add: tokenize_loop.simps [of lx] advance_by_def t_def)
    have b: "tok_value t = take 1 (drop ?p ?s)"
      by (simp add: t_def d)
    have c: "tok_line t = line lx" "tok_column t = column lx"
      by (simp_all add: t_def)
    have e: "CHR 0x0A \<notin> set (tok_value t)"
      using xn by (simp add: t_def)
    have "(0::nat) < 1" by simp
    with a b c e have "(0::nat) < 1 \<and>
        tokenize_loop lx toks = tokenize_loop (advance_by lx 1) (toks @ [t]) \<and>
        tok_value t = take 1 (drop ?p ?s) \<and>
        tok_line t = line lx \<and> tok_column t = column lx \<and> CHR 0x0A \<notin> set (tok_value t)"
      by blast
    then show ?thesis by blast
  qed
qed

lemma tokenize_source_indexed:
  assumes i: "i < length (tokenize_source s)"
  shows "(\<exists>p r. s = p @ tok_value (tokenize_source s ! i) @ r \<and>
            filter (\<lambda>c. \<not> isspace c) p =
              concat (map tok_value (take i (tokenize_source s)))) \<and>
         (\<forall>p r. s = p @ tok_value (tokenize_source s ! i) @ r \<and>
            filter (\<lambda>c. \<not> isspace c) p =
              concat (map tok_value (take i (tokenize_source s))) \<longrightarrow>
            (tok_line (tokenize_source s ! i), tok_column (tokenize_source s ! i)) =
              foldl advance (1, 1) p)"
proof -
  let ?ts = "tokenize_source s"
  from i obtain p r where p: "s = p @ tok_value (?ts ! i) @ r"
    "filter (\<lambda>c. \<not> isspace c) p = concat (map tok_value (take i ?ts))"
    "(tok_line (?ts ! i), tok_column (?ts ! i)) = foldl advance (1, 1) p"
    using tokens_of_indexed [of i 1 1 s] unfolding tokenize_source_tokens by blast
  from i have "?ts ! i \<in> set (tokens_of 1 1 s)"
    unfolding tokenize_source_tokens by simp
  then have st: "tok_value (?ts ! i) \<noteq> []" "\<not> isspace (hd (tok_value (?ts ! i)))"
    using tokens_of_starts by blast+
  have "p' = p" if "s = p' @ tok_value (?ts ! i) @ r'"
    and "filter (\<lambda>c. \<not> isspace c) p' = concat (map tok_value (take i ?ts))" for p' r'
  proof (rule prefix_pinned [OF _ _ st])
    from that(1) p(1) show "p' @ tok_value (?ts ! i) @ r' = p @ tok_value (?ts ! i) @ r"
      by simp
    from that(2) p(2) show
      "filter (\<lambda>x. \<not> isspace x) p' = filter (\<lambda>x. \<not> isspace x) p" by simp
  qed
  with p show ?thesis by blast
qed

text \<open>
  C6.  A new lexer stands at line 1, column 1.  The \<open>i\<close>-th token stands in the input
  right after a prefix that holds exactly the first \<open>i\<close> lexemes and whitespace; there is
  only one such place, and the token carries the line and column that the rule
  \<open>advance\<close> gives after that prefix, that is, where its first character is consumed.
  Step by step: an iteration at a whitespace character moves the lexer by the rule for
  that character, and an iteration at any other character emits a token with the line
  and column of the lexer, takes its lexeme, which holds no newline, from the input at
  the position of the lexer, and moves the column by the length of the lexeme.  The lexer
  ends at the line and column that the rule gives after the whole input, and the input
  \<^verbatim>\<open>a\<close>, newline, \<^verbatim>\<open>b\<close> yields \<^verbatim>\<open>a\<close> at line 1, column 1 and \<^verbatim>\<open>b\<close> at line 2,
  column 1.
\<close>

theorem position_tracking:
  "line (new_Lexer s) = 1 \<and> column (new_Lexer s) = 1 \<and>
   (\<forall>i < length (tokenize_source s).
      (\<exists>p r. s = p @ tok_value (tokenize_source s ! i) @ r \<and>
         filter (\<lambda>c. \<not> isspace c) p =
           concat (map tok_value (take i (tokenize_source s)))) \<and>
      (\<forall>p r. s = p @ tok_value (tokenize_source s ! i) @ r \<and>
         filter (\<lambda>c. \<not> isspace c) p =
           concat (map tok_value (take i (tokenize_source s))) \<longrightarrow>
         (tok_line (tokenize_source s ! i), tok_column (tokenize_source s ! i)) =
           foldl advance (1, 1) p)) \<and>
   (position lx < length (input lx) \<and> isspace (input lx ! position lx) \<longrightarrow>
      tokenize_loop lx toks =
        tokenize_loop
          (lx\<lparr>line := fst (advance (line lx, column lx) (input lx ! position lx)),
              column := snd (advance (line lx, column lx) (input lx ! position lx)),
              position := position lx + 1\<rparr>) toks) \<and>
   (position lx < length (input lx) \<and> \<not> isspace (input lx ! position lx) \<longrightarrow>
      (\<exists>n t. 0 < n \<and>
         tokenize_loop lx toks = tokenize_loop (advance_by lx n) (toks @ [t]) \<and>
         tok_value t = take n (drop (position lx) (input lx)) \<and>
         tok_line t = line lx \<and> tok_column t = column lx \<and>
         CHR 0x0A \<notin> set (tok_value t))) \<and>
   (line (snd (tokenize (new_Lexer s))), column (snd (tokenize (new_Lexer s)))) =
      foldl advance (1, 1) s \<and>
   tokenize_source ''a\<newline>b'' =
     [\<lparr>tok_type = ''IDENTIFIER'', tok_value = ''a'', tok_line = 1, tok_column = 1\<rparr>,
      \<lparr>tok_type = ''IDENTIFIER'', tok_value = ''b'', tok_line = 2, tok_column = 1\<rparr>]"
proof (intro conjI)
  show "line (new_Lexer s) = 1" and "column (new_Lexer s) = 1"
    by (simp_all add: new_Lexer_def)
next
  show "\<forall>i < length (tokenize_source s).
      (\<exists>p r. s = p @ tok_value (tokenize_source s ! i) @ r \<and>
         filter (\<lambda>c. \<not> isspace c) p =
           concat (map tok_value (take i (tokenize_source s)))) \<and>
      (\<forall>p r. s = p @ tok_value (tokenize_source s ! i) @ r \<and>
         filter (\<lambda>c. \<not> isspace c) p =
           concat (map tok_value (take i (tokenize_source s))) \<longrightarrow>
         (tok_line (tokenize_source s ! i), tok_column (tokenize_source s ! i)) =
           foldl advance (1, 1) p)"
    by (intro allI impI tokenize_source_indexed)
next
  show "position lx < length (input lx) \<and> isspace (input lx ! position lx) \<longrightarrow>
      tokenize_loop lx toks =
        tokenize_loop
          (lx\<lparr>line := fst (advance (line lx, column lx) (input lx ! position lx)),
              column := snd (advance (line lx, column lx) (input lx ! position lx)),
              position := position lx + 1\<rparr>) toks"
    using tokenize_loop_whitespace [of lx toks] by blast
next
  show "position lx < length (input lx) \<and> \<not> isspace (input lx ! position lx) \<longrightarrow>
      (\<exists>n t. 0 < n \<and>
         tokenize_loop lx toks = tokenize_loop (advance_by lx n) (toks @ [t]) \<and>
         tok_value t = take n (drop (position lx) (input lx)) \<and>
         tok_line t = line lx \<and> tok_column t = column lx \<and>
         CHR 0x0A \<notin> set (tok_value t))"
    using tokenize_loop_token [of lx toks] by blast
next
  show "(line (snd (tokenize (new_Lexer s))), column (snd (tokenize (new_Lexer s)))) =
      foldl advance (1, 1) s"
    by (simp add: tokenize_def tokenize_loop_final new_Lexer_def)
next
  show "tokenize_source ''a\<newline>b'' =
     [\<lparr>tok_type = ''IDENTIFIER'', tok_value = ''a'', tok_line = 1, tok_column = 1\<rparr>,
      \<lparr>tok_type = ''IDENTIFIER'', tok_value = ''b'', tok_line = 2, tok_column = 1\<rparr>]"
    by (simp add: tokenize_source_tokens tokens_of.simps(2) char_class_defs isKeyword_iff)
qed

text \<open>The theorem at the second \<^verbatim>\<open>x\<close> of \<^verbatim>\<open>x = x + 1\<close>, the third token: the prefix is
  \<^verbatim>\<open>x = \<close> and the token stands at line 1, column 5, not at the column of the first
  \<^verbatim>\<open>x\<close>.\<close>

theorem position_tracking_witness:
  "(2::nat) < length (tokenize_source ''x = x + 1'') \<and>
   tok_value (tokenize_source ''x = x + 1'' ! 2) = ''x'' \<and>
   ''x = x + 1'' = ''x = '' @ tok_value (tokenize_source ''x = x + 1'' ! 2) @ '' + 1'' \<and>
   filter (\<lambda>c. \<not> isspace c) ''x = '' =
     concat (map tok_value (take 2 (tokenize_source ''x = x + 1''))) \<and>
   (tok_line (tokenize_source ''x = x + 1'' ! 2),
    tok_column (tokenize_source ''x = x + 1'' ! 2)) = foldl advance (1, 1) ''x = '' \<and>
   foldl advance (1, 1) ''x = '' = (1, 5)"
proof -
  let ?s = "''x = x + 1''"
  have ts: "tokenize_source ?s =
     [\<lparr>tok_type = ''IDENTIFIER'', tok_value = ''x'', tok_line = 1, tok_column = 1\<rparr>,
      \<lparr>tok_type = ''PUNCTUATION'', tok_value = ''='', tok_line = 1, tok_column = 3\<rparr>,
      \<lparr>tok_type = ''IDENTIFIER'', tok_value = ''x'', tok_line = 1, tok_column = 5\<rparr>,
      \<lparr>tok_type = ''PUNCTUATION'', tok_value = ''+'', tok_line = 1, tok_column = 7\<rparr>,
      \<lparr>tok_type = ''NUMBER'', tok_value = ''1'', tok_line = 1, tok_column = 9\<rparr>]"
    by (simp add: tokenize_source_tokens tokens_of.simps(2) char_class_defs isKeyword_iff)
  have len: "(2::nat) < length (tokenize_source ?s)" by (simp add: ts)
  have v: "tok_value (tokenize_source ?s ! 2) = ''x''" by (simp add: ts)
  have split: "?s = ''x = '' @ tok_value (tokenize_source ?s ! 2) @ '' + 1''"
    by (simp add: v)
  have before: "filter (\<lambda>c. \<not> isspace c) ''x = '' =
      concat (map tok_value (take 2 (tokenize_source ?s)))"
    by (simp add: ts isspace_def)
  from position_tracking [of ?s] have
    "\<forall>i < length (tokenize_source ?s).
      (\<exists>p r. ?s = p @ tok_value (tokenize_source ?s ! i) @ r \<and>
         filter (\<lambda>c. \<not> isspace c) p =
           concat (map tok_value (take i (tokenize_source ?s)))) \<and>
      (\<forall>p r. ?s = p @ tok_value (tokenize_source ?s ! i) @ r \<and>
         filter (\<lambda>c. \<not> isspace c) p =
           concat (map tok_value (take i (tokenize_source ?s))) \<longrightarrow>
         (tok_line (tokenize_source ?s ! i), tok_column (tokenize_source ?s ! i)) =
           foldl advance (1, 1) p)"
    by (rule conjunct2 [THEN conjunct2, THEN conjunct1])
  with len split before have pos:
    "(tok_line (tokenize_source ?s ! 2), tok_column (tokenize_source ?s ! 2)) =
       foldl advance (1, 1) ''x = ''"
    by blast
  have "foldl advance (1, 1) ''x = '' = (1 :: 32 word, 5 :: 32 word)"
    by (simp add: advance_def)
  with len v split before pos show ?thesis by blast
qed

section \<open>Tokenizing the joined lexemes again\<close>

lemma join_lexemes_Cons:
  "ws \<noteq> [] \<Longrightarrow> join_lexemes (w # ws) = w @ CHR '' '' # join_lexemes ws"
  by (cases ws) simp_all

lemma blank_class:
  "isspace (CHR '' '')" "CHR '' '' \<noteq> CHR 0x0A" "\<not> ident_char (CHR '' '')"
  "\<not> number_char (CHR '' '')"
  by (simp_all add: char_class_defs)

lemma tokens_of_blank: "tokens_of l c (CHR '' '' # J) = tokens_of l (c + 1) J"
  by (simp add: tokens_of.simps(2) blank_class)

lemma takeWhile_all:
  "\<forall>y\<in>set u. P y \<Longrightarrow> takeWhile P u = u \<and> dropWhile P u = []"
  by simp

lemma takeWhile_stop:
  "\<forall>y\<in>set u. P y \<Longrightarrow> \<not> P b \<Longrightarrow>
     takeWhile P (u @ b # J) = u \<and> dropWhile P (u @ b # J) = b # J"
  by (simp add: takeWhile_append2 dropWhile_append2)

lemma tokens_of_identifier_alone:
  assumes "isalpha x \<or> x = CHR ''_''" and "\<forall>y\<in>set u. ident_char y"
  shows "map kind_and_lexeme (tokens_of l c (x # u)) =
     [(if isKeyword (x # u) then ''KEYWORD'' else ''IDENTIFIER'', x # u)]"
proof -
  have tw: "takeWhile ident_char u = u" "dropWhile ident_char u = []"
    using assms(2) by simp_all
  show ?thesis
    unfolding tokens_of.simps(2) [of l c x u] tw
    using assms(1) ident_start_class [OF assms(1)] by (simp add: kind_and_lexeme_def)
qed

lemma tokens_of_identifier_blank:
  assumes "isalpha x \<or> x = CHR ''_''" and "\<forall>y\<in>set u. ident_char y"
  shows "map kind_and_lexeme (tokens_of l c ((x # u) @ CHR '' '' # J)) =
     (if isKeyword (x # u) then ''KEYWORD'' else ''IDENTIFIER'', x # u)
       # map kind_and_lexeme (tokens_of l (c + of_nat (Suc (length u)) + 1) J)"
proof -
  have tw: "takeWhile ident_char (u @ CHR '' '' # J) = u"
    "dropWhile ident_char (u @ CHR '' '' # J) = CHR '' '' # J"
    using takeWhile_stop [OF assms(2) blank_class(3), of J] by simp_all
  show ?thesis
    unfolding append_Cons tokens_of.simps(2) [of l c x "u @ CHR '' '' # J"] tw tokens_of_blank
    using assms(1) ident_start_class [OF assms(1)] by (simp add: kind_and_lexeme_def)
qed

lemma tokens_of_number_alone:
  assumes "isdigit x" and "\<forall>y\<in>set u. number_char y"
  shows "map kind_and_lexeme (tokens_of l c (x # u)) = [(''NUMBER'', x # u)]"
proof -
  have tw: "takeWhile number_char u = u" "dropWhile number_char u = []"
    using assms(2) by simp_all
  show ?thesis
    unfolding tokens_of.simps(2) [of l c x u] tw
    using assms(1) digit_class [OF assms(1)] by (simp add: kind_and_lexeme_def)
qed

lemma tokens_of_number_blank:
  assumes "isdigit x" and "\<forall>y\<in>set u. number_char y"
  shows "map kind_and_lexeme (tokens_of l c ((x # u) @ CHR '' '' # J)) =
     (''NUMBER'', x # u)
       # map kind_and_lexeme (tokens_of l (c + of_nat (Suc (length u)) + 1) J)"
proof -
  have tw: "takeWhile number_char (u @ CHR '' '' # J) = u"
    "dropWhile number_char (u @ CHR '' '' # J) = CHR '' '' # J"
    using takeWhile_stop [OF assms(2) blank_class(4), of J] by simp_all
  show ?thesis
    unfolding append_Cons tokens_of.simps(2) [of l c x "u @ CHR '' '' # J"] tw tokens_of_blank
    using assms(1) digit_class [OF assms(1)] by (simp add: kind_and_lexeme_def)
qed

lemma tokens_of_other_alone:
  assumes "\<not> isspace x" and "\<not> (isalpha x \<or> x = CHR ''_'')" and "\<not> isdigit x"
  shows "map kind_and_lexeme (tokens_of l c [x]) =
     [(if ispunct x then ''PUNCTUATION'' else ''OPERATOR'', [x])]"
  using assms by (simp add: tokens_of.simps(2) kind_and_lexeme_def)

lemma tokens_of_other_blank:
  assumes "\<not> isspace x" and "\<not> (isalpha x \<or> x = CHR ''_'')" and "\<not> isdigit x"
  shows "map kind_and_lexeme (tokens_of l c ([x] @ CHR '' '' # J)) =
     (if ispunct x then ''PUNCTUATION'' else ''OPERATOR'', [x])
       # map kind_and_lexeme (tokens_of l (c + 1 + 1) J)"
  using assms by (simp add: tokens_of.simps(2) [of l c x] kind_and_lexeme_def tokens_of_blank)

lemma retokenize_tokens_of:
  "map kind_and_lexeme (tokens_of l' c' (join_lexemes (map tok_value (tokens_of l c s)))) =
   map kind_and_lexeme (tokens_of l c s)"
proof (induction l c s arbitrary: l' c' rule: tokens_of.induct)
  case (1 l c)
  show ?case by simp
next
  case (2 l c x xs)
  consider (space) "isspace x"
    | (ident) "\<not> isspace x" "isalpha x \<or> x = CHR ''_''"
    | (number) "\<not> isspace x" "\<not> (isalpha x \<or> x = CHR ''_'')" "isdigit x"
    | (other) "\<not> isspace x" "\<not> (isalpha x \<or> x = CHR ''_'')" "\<not> isdigit x"
    by blast
  then show ?case
  proof cases
    case space
    show ?thesis
    proof (cases "x = CHR 0x0A")
      case True
      with "2.IH"(1) [OF space True] space show ?thesis by (simp add: tokens_of.simps(2) [of l c])
    next
      case False
      with "2.IH"(2) [OF space False] space show ?thesis by (simp add: tokens_of.simps(2) [of l c])
    qed
  next
    case ident
    define u where "u = takeWhile ident_char xs"
    define R where "R = tokens_of l (c + of_nat (Suc (length u))) (dropWhile ident_char xs)"
    define k where "k = (if isKeyword (x # u) then ''KEYWORD'' else ''IDENTIFIER'')"
    have T: "tokens_of l c (x # xs) =
        \<lparr>tok_type = k, tok_value = x # u, tok_line = l, tok_column = c\<rparr> # R"
      using ident by (simp add: tokens_of.simps(2) [of l c] u_def R_def k_def)
    have u: "\<forall>y\<in>set u. ident_char y" unfolding u_def by (rule takeWhile_holds)
    have IH: "\<And>l' c'. map kind_and_lexeme (tokens_of l' c' (join_lexemes (map tok_value R))) =
        map kind_and_lexeme R"
      using "2.IH"(3) [OF ident] by (simp add: R_def u_def)
    show ?thesis
    proof (cases "R = []")
      case True
      then have "join_lexemes (map tok_value (tokens_of l c (x # xs))) = x # u"
        unfolding T by simp
      then have "map kind_and_lexeme
            (tokens_of l' c' (join_lexemes (map tok_value (tokens_of l c (x # xs))))) =
          map kind_and_lexeme (tokens_of l' c' (x # u))"
        by (simp only:)
      also have "\<dots> = [(if isKeyword (x # u) then ''KEYWORD'' else ''IDENTIFIER'', x # u)]"
        by (rule tokens_of_identifier_alone [OF ident(2) u])
      also have "\<dots> = map kind_and_lexeme (tokens_of l c (x # xs))"
        by (simp add: T True kind_and_lexeme_def k_def)
      finally show ?thesis .
    next
      case False
      then have "join_lexemes (map tok_value (tokens_of l c (x # xs))) =
          (x # u) @ CHR '' '' # join_lexemes (map tok_value R)"
        unfolding T by (simp add: join_lexemes_Cons)
      then have "map kind_and_lexeme
            (tokens_of l' c' (join_lexemes (map tok_value (tokens_of l c (x # xs))))) =
          map kind_and_lexeme (tokens_of l' c' ((x # u) @ CHR '' '' # join_lexemes (map tok_value R)))"
        by (simp only:)
      also have "\<dots> = (if isKeyword (x # u) then ''KEYWORD'' else ''IDENTIFIER'', (x # u)) #
          map kind_and_lexeme (tokens_of l' (c' + of_nat (Suc (length u)) + 1) (join_lexemes (map tok_value R)))"
        by (rule tokens_of_identifier_blank [OF ident(2) u])
      also have "\<dots> = (if isKeyword (x # u) then ''KEYWORD'' else ''IDENTIFIER'', (x # u)) # map kind_and_lexeme R"
        by (simp only: IH)
      also have "\<dots> = map kind_and_lexeme (tokens_of l c (x # xs))"
        by (simp add: T kind_and_lexeme_def k_def)
      finally show ?thesis .
    qed
  next
    case number
    define u where "u = takeWhile number_char xs"
    define R where "R = tokens_of l (c + of_nat (Suc (length u))) (dropWhile number_char xs)"
    have T: "tokens_of l c (x # xs) =
        \<lparr>tok_type = ''NUMBER'', tok_value = x # u, tok_line = l, tok_column = c\<rparr> # R"
      using number by (simp add: tokens_of.simps(2) [of l c] u_def R_def)
    have u: "\<forall>y\<in>set u. number_char y" unfolding u_def by (rule takeWhile_holds)
    have IH: "\<And>l' c'. map kind_and_lexeme (tokens_of l' c' (join_lexemes (map tok_value R))) =
        map kind_and_lexeme R"
      using "2.IH"(4) [OF number] by (simp add: R_def u_def)
    show ?thesis
    proof (cases "R = []")
      case True
      then have "join_lexemes (map tok_value (tokens_of l c (x # xs))) = x # u"
        unfolding T by simp
      then have "map kind_and_lexeme
            (tokens_of l' c' (join_lexemes (map tok_value (tokens_of l c (x # xs))))) =
          map kind_and_lexeme (tokens_of l' c' (x # u))"
        by (simp only:)
      also have "\<dots> = [(''NUMBER'', x # u)]"
        by (rule tokens_of_number_alone [OF number(3) u])
      also have "\<dots> = map kind_and_lexeme (tokens_of l c (x # xs))"
        by (simp add: T True kind_and_lexeme_def)
      finally show ?thesis .
    next
      case False
      then have "join_lexemes (map tok_value (tokens_of l c (x # xs))) =
          (x # u) @ CHR '' '' # join_lexemes (map tok_value R)"
        unfolding T by (simp add: join_lexemes_Cons)
      then have "map kind_and_lexeme
            (tokens_of l' c' (join_lexemes (map tok_value (tokens_of l c (x # xs))))) =
          map kind_and_lexeme (tokens_of l' c' ((x # u) @ CHR '' '' # join_lexemes (map tok_value R)))"
        by (simp only:)
      also have "\<dots> = (''NUMBER'', (x # u)) #
          map kind_and_lexeme (tokens_of l' (c' + of_nat (Suc (length u)) + 1) (join_lexemes (map tok_value R)))"
        by (rule tokens_of_number_blank [OF number(3) u])
      also have "\<dots> = (''NUMBER'', (x # u)) # map kind_and_lexeme R"
        by (simp only: IH)
      also have "\<dots> = map kind_and_lexeme (tokens_of l c (x # xs))"
        by (simp add: T kind_and_lexeme_def)
      finally show ?thesis .
    qed
  next
    case other
    define R where "R = tokens_of l (c + 1) xs"
    define k where "k = (if ispunct x then ''PUNCTUATION'' else ''OPERATOR'')"
    have T: "tokens_of l c (x # xs) =
        \<lparr>tok_type = k, tok_value = [x], tok_line = l, tok_column = c\<rparr> # R"
      using other by (simp add: tokens_of.simps(2) [of l c] R_def k_def)
    have IH: "\<And>l' c'. map kind_and_lexeme (tokens_of l' c' (join_lexemes (map tok_value R))) =
        map kind_and_lexeme R"
      using "2.IH"(5) [OF other] by (simp add: R_def)
    show ?thesis
    proof (cases "R = []")
      case True
      then have "join_lexemes (map tok_value (tokens_of l c (x # xs))) = [x]"
        unfolding T by simp
      then have "map kind_and_lexeme
            (tokens_of l' c' (join_lexemes (map tok_value (tokens_of l c (x # xs))))) =
          map kind_and_lexeme (tokens_of l' c' ([x]))"
        by (simp only:)
      also have "\<dots> = [(if ispunct x then ''PUNCTUATION'' else ''OPERATOR'', [x])]"
        by (rule tokens_of_other_alone [OF other])
      also have "\<dots> = map kind_and_lexeme (tokens_of l c (x # xs))"
        by (simp add: T True kind_and_lexeme_def k_def)
      finally show ?thesis .
    next
      case False
      then have "join_lexemes (map tok_value (tokens_of l c (x # xs))) =
          [x] @ CHR '' '' # join_lexemes (map tok_value R)"
        unfolding T by (simp add: join_lexemes_Cons)
      then have "map kind_and_lexeme
            (tokens_of l' c' (join_lexemes (map tok_value (tokens_of l c (x # xs))))) =
          map kind_and_lexeme (tokens_of l' c' ([x] @ CHR '' '' # join_lexemes (map tok_value R)))"
        by (simp only:)
      also have "\<dots> = (if ispunct x then ''PUNCTUATION'' else ''OPERATOR'', [x]) #
          map kind_and_lexeme (tokens_of l' (c' + 1 + 1) (join_lexemes (map tok_value R)))"
        by (rule tokens_of_other_blank [OF other])
      also have "\<dots> = (if ispunct x then ''PUNCTUATION'' else ''OPERATOR'', [x]) # map kind_and_lexeme R"
        by (simp only: IH)
      also have "\<dots> = map kind_and_lexeme (tokens_of l c (x # xs))"
        by (simp add: T kind_and_lexeme_def k_def)
      finally show ?thesis .
    qed
  qed
qed

text \<open>
  C8.  Joining the lexemes of the tokens of any input with single blanks and tokenizing
  the result gives tokens with the same types and lexemes, in the same order.
\<close>

theorem retokenize_joined_lexemes:
  "map kind_and_lexeme
     (tokenize_source (join_lexemes (map tok_value (tokenize_source s)))) =
   map kind_and_lexeme (tokenize_source s)"
  by (simp only: tokenize_source_tokens retokenize_tokens_of)

section \<open>The parser reads inside the token sequence\<close>

lemma token_at_inbounds: "i < length tokens \<Longrightarrow> token_at tokens i = Inr (tokens ! i)"
  by (simp add: token_at_def)

lemma parseStatement_expression_inbounds:
  "\<exists>r. parseStatement_expression M tokens current = Inr r"
  by (simp add: parseStatement_expression_def token_at_inbounds split: prod.split)

lemma parseStatement_inbounds: "\<exists>r. parseStatement M tokens current = Inr r"
  using parseStatement_expression_inbounds [of M tokens current]
  by (auto simp: parseStatement_def token_at_inbounds)

lemma skip_parameters_inbounds: "\<exists>c. skip_parameters tokens current = Inr c"
proof (induction tokens current rule: skip_parameters.induct)
  case (1 tokens current)
  then show ?case
    by (simp add: skip_parameters.simps [of tokens current] token_at_inbounds)
qed

lemma parseBlock_loop_inbounds:
  assumes "parseBlock_loop M tokens current kids = Some r"
  shows "\<exists>x. r = Inr x"
proof (rule parseBlock_loop.raw_induct
    [where P = "\<lambda>M tokens current kids r. \<exists>x. r = Inr x", OF _ assms], goal_cases)
  case (1 loop M tokens current kids r)
  obtain statement c' where s: "parseStatement M tokens current = Inr (statement, c')"
    using parseStatement_inbounds by (metis surj_pair)
  show ?case
  proof (cases "current < length tokens \<and> tok_value (tokens ! current) \<noteq> ''}''")
    case True
    with 1(2) s have "loop M tokens c'
        (case statement of None \<Rightarrow> kids | Some n \<Rightarrow> kids @ [n]) = Some r"
      by (simp add: token_at_inbounds)
    then show ?thesis by (rule 1(1))
  next
    case False
    with 1(2) show ?thesis
      by (auto simp: token_at_inbounds split: if_splits)
  qed
qed

lemma parseBlock_inbounds:
  "parseBlock M tokens current = Some r \<Longrightarrow> \<exists>x. r = Inr x"
  using parseBlock_loop_inbounds [of M tokens current "[]"]
  by (auto simp: parseBlock_def token_at_inbounds
      split: option.splits sum.splits prod.splits if_splits)

lemma parseDeclaration_inbounds:
  "parseDeclaration M tokens current = Some r \<Longrightarrow> \<exists>x. r = Inr x"
proof -
  assume a: "parseDeclaration M tokens current = Some r"
  obtain c3 where c3: "skip_parameters tokens (current + 3) = Inr c3"
    using skip_parameters_inbounds by blast
  define c4 where "c4 = (if c3 < length tokens \<and> tok_value (tokens ! c3) = '')'' then c3 + 1 else c3)"
  have blk: "\<And>b. parseBlock M tokens (c4 + 1) = Some b \<Longrightarrow> \<exists>x. b = Inr x"
    by (rule parseBlock_inbounds)
  from a c3 show ?thesis
    unfolding parseDeclaration_def
    by (auto simp: token_at_inbounds c4_def [symmetric]
        split: option.splits sum.splits prod.splits if_splits dest: blk parseBlock_inbounds)
qed

lemma parse_loop_inbounds:
  assumes "parse_loop M tokens current kids = Some r"
  shows "\<exists>x. r = Inr x"
proof (rule parse_loop.raw_induct
    [where P = "\<lambda>M tokens current kids r. \<exists>x. r = Inr x", OF _ assms], goal_cases)
  case (1 loop M tokens current kids r)
  show ?case
  proof (cases "current < length tokens")
    case True
    show ?thesis
    proof (cases "parseDeclaration M tokens current")
      case None
      with True 1(2) show ?thesis by simp
    next
      case (Some d)
      then obtain node c' where "d = Inr (node, c')"
        using parseDeclaration_inbounds by (metis surj_pair)
      with Some True 1(2) have "loop M tokens c'
          (case node of None \<Rightarrow> kids | Some n \<Rightarrow> kids @ [n]) = Some r"
        by simp
      then show ?thesis by (rule 1(1))
    qed
  next
    case False
    with 1(2) show ?thesis by auto
  qed
qed

lemma parse_inbounds: "parse M tokens = Some r \<Longrightarrow> \<exists>x. r = Inr x"
  using parse_loop_inbounds [of M tokens 0 "[]"]
  by (auto simp: parse_def split: option.splits sum.splits prod.splits)

section \<open>What the parser returns\<close>

lemma tokenize_int_main:
  "tokenize_source ''int main() { return 0; }'' =
    [\<lparr>tok_type = ''KEYWORD'', tok_value = ''int'', tok_line = 1, tok_column = 1\<rparr>,
     \<lparr>tok_type = ''IDENTIFIER'', tok_value = ''main'', tok_line = 1, tok_column = 5\<rparr>,
     \<lparr>tok_type = ''PUNCTUATION'', tok_value = ''('', tok_line = 1, tok_column = 9\<rparr>,
     \<lparr>tok_type = ''PUNCTUATION'', tok_value = '')'', tok_line = 1, tok_column = 10\<rparr>,
     \<lparr>tok_type = ''PUNCTUATION'', tok_value = ''{'', tok_line = 1, tok_column = 12\<rparr>,
     \<lparr>tok_type = ''KEYWORD'', tok_value = ''return'', tok_line = 1, tok_column = 14\<rparr>,
     \<lparr>tok_type = ''NUMBER'', tok_value = ''0'', tok_line = 1, tok_column = 21\<rparr>,
     \<lparr>tok_type = ''PUNCTUATION'', tok_value = '';'', tok_line = 1, tok_column = 22\<rparr>,
     \<lparr>tok_type = ''PUNCTUATION'', tok_value = ''}'', tok_line = 1, tok_column = 24\<rparr>]"
  by (simp add: tokenize_source_tokens tokens_of.simps(2) char_class_defs isKeyword_iff)

text \<open>
  C4.  With the return statement of the specification, and whatever the other two
  missing methods do, the tokens of \<^verbatim>\<open>int main() { return 0; }\<close> parse to a
  \<^verbatim>\<open>PROGRAM\<close> node with one child, a \<^verbatim>\<open>FUNCTION_DECLARATION\<close> of value \<^verbatim>\<open>main\<close>, with
  one child, a \<^verbatim>\<open>BLOCK\<close>, with one child, a \<^verbatim>\<open>RETURN_STATEMENT\<close>.
\<close>

theorem parse_int_main:
  "parse \<lparr>parseIfStatement = pIf, parseReturnStatement = spec_parseReturnStatement,
          parseExpressionStatement = pExpr\<rparr>
     (tokenize_source ''int main() { return 0; }'') =
   Some (Inr (Node ''PROGRAM'' []
     [Node ''FUNCTION_DECLARATION'' ''main''
       [Node ''BLOCK'' []
         [Node ''RETURN_STATEMENT'' [] [Node ''EXPRESSION'' ''0'' []]]]]))"
  unfolding tokenize_int_main
  by (simp add: parse_def parse_loop.simps parseDeclaration_def token_at_def
      skip_parameters.simps parseBlock_def parseBlock_loop.simps parseStatement_def
      spec_parseReturnStatement_def spec_parseExpression_def)

lemma parseDeclaration_not_keyword:
  "\<not> (current < length tokens \<and> tok_type (tokens ! current) = ''KEYWORD'') \<Longrightarrow>
     parseDeclaration M tokens current = Some (Inr (None, current))"
  by (auto simp: parseDeclaration_def token_at_inbounds)

lemma parseDeclaration_not_identifier:
  "current < length tokens \<Longrightarrow> tok_type (tokens ! current) = ''KEYWORD'' \<Longrightarrow>
   \<not> (current + 1 < length tokens \<and> tok_type (tokens ! (current + 1)) = ''IDENTIFIER'') \<Longrightarrow>
     parseDeclaration M tokens current = Some (Inr (None, current + 1))"
  by (auto simp: parseDeclaration_def token_at_inbounds)

lemma parseDeclaration_not_function:
  "current < length tokens \<Longrightarrow> tok_type (tokens ! current) = ''KEYWORD'' \<Longrightarrow>
   current + 1 < length tokens \<Longrightarrow> tok_type (tokens ! (current + 1)) = ''IDENTIFIER'' \<Longrightarrow>
   \<not> (current + 2 < length tokens \<and> tok_value (tokens ! (current + 2)) = ''('') \<Longrightarrow>
     parseDeclaration M tokens current = Some (Inr (None, current + 2))"
  by (auto simp: parseDeclaration_def token_at_inbounds)

lemma parse_loop_stuck:
  assumes "parse_loop M tokens current kids = Some r"
  shows "\<not> (current < length tokens \<and> tok_type (tokens ! current) \<noteq> ''KEYWORD'')"
proof (rule parse_loop.raw_induct
    [where P = "\<lambda>M tokens current kids r.
        \<not> (current < length tokens \<and> tok_type (tokens ! current) \<noteq> ''KEYWORD'')",
     OF _ assms], goal_cases)
  case (1 loop M tokens current kids r)
  show ?case
  proof
    assume stuck: "current < length tokens \<and> tok_type (tokens ! current) \<noteq> ''KEYWORD''"
    then have "parseDeclaration M tokens current = Some (Inr (None, current))"
      by (intro parseDeclaration_not_keyword) simp
    with stuck 1(2) have "loop M tokens current kids = Some r" by simp
    from 1(1) [OF this] stuck show False by simp
  qed
qed

text \<open>
  C2.  \<^verbatim>\<open>parseDeclaration\<close> returns at its first check without moving the cursor when
  the token is not a keyword, and the loop of \<^verbatim>\<open>parse\<close> tries again at the same
  cursor.  So \<^verbatim>\<open>parse\<close> does not return on the tokens of \<^verbatim>\<open>x\<close>, nor on those of
  \<^verbatim>\<open>int x = 10;\<close>, where the cursor stops for good at \<^verbatim>\<open>=\<close>.  This holds whatever the
  three missing methods do.
\<close>

theorem parse_loops_forever_on_non_keyword:
  "parse M (tokenize_source ''x'') = None \<and> parse M (tokenize_source ''int x = 10;'') = None"
proof
  have x: "tokenize_source ''x'' =
      [\<lparr>tok_type = ''IDENTIFIER'', tok_value = ''x'', tok_line = 1, tok_column = 1\<rparr>]"
    by (simp add: tokenize_source_tokens tokens_of.simps(2) char_class_defs isKeyword_iff)
  have "parse_loop M (tokenize_source ''x'') 0 [] = None"
  proof (cases "parse_loop M (tokenize_source ''x'') 0 []")
    case (Some r)
    from parse_loop_stuck [OF this] show ?thesis by (simp add: x)
  qed simp
  then show "parse M (tokenize_source ''x'') = None"
    by (simp add: parse_def)
next
  let ?ts = "tokenize_source ''int x = 10;''"
  have ts: "?ts =
      [\<lparr>tok_type = ''KEYWORD'', tok_value = ''int'', tok_line = 1, tok_column = 1\<rparr>,
       \<lparr>tok_type = ''IDENTIFIER'', tok_value = ''x'', tok_line = 1, tok_column = 5\<rparr>,
       \<lparr>tok_type = ''PUNCTUATION'', tok_value = ''='', tok_line = 1, tok_column = 7\<rparr>,
       \<lparr>tok_type = ''NUMBER'', tok_value = ''10'', tok_line = 1, tok_column = 9\<rparr>,
       \<lparr>tok_type = ''PUNCTUATION'', tok_value = '';'', tok_line = 1, tok_column = 11\<rparr>]"
    by (simp add: tokenize_source_tokens tokens_of.simps(2) char_class_defs isKeyword_iff)
  have len: "0 < length ?ts" by (simp add: ts)
  have d: "parseDeclaration M ?ts 0 = Some (Inr (None, 2))"
    using parseDeclaration_not_function [of 0 ?ts M] by (simp add: ts)
  have step: "parse_loop M ?ts 0 [] = parse_loop M ?ts 2 []"
    by (subst parse_loop.simps) (simp only: len d if_True option.case sum.case prod.case)
  have "parse_loop M ?ts 2 [] = None"
  proof (cases "parse_loop M ?ts 2 []")
    case (Some r)
    from parse_loop_stuck [OF this] show ?thesis by (simp add: ts)
  qed simp
  with step show "parse M ?ts = None"
    by (simp add: parse_def)
qed

text \<open>
  C9.  When \<^verbatim>\<open>parseDeclaration\<close> finds a keyword and an identifier and the next token
  is not \<^verbatim>\<open>(\<close> (or there is none), it returns no node and leaves the cursor two tokens
  further.  When the first token is not a keyword (or there is none) the cursor stays;
  when the keyword is not followed by an identifier the cursor is one token further.
\<close>

theorem parseDeclaration_keeps_consumed_tokens:
  "(current < length tokens \<and> tok_type (tokens ! current) = ''KEYWORD'' \<and>
    current + 1 < length tokens \<and> tok_type (tokens ! (current + 1)) = ''IDENTIFIER'' \<and>
    \<not> (current + 2 < length tokens \<and> tok_value (tokens ! (current + 2)) = ''('') \<longrightarrow>
      parseDeclaration M tokens current = Some (Inr (None, current + 2))) \<and>
   (\<not> (current < length tokens \<and> tok_type (tokens ! current) = ''KEYWORD'') \<longrightarrow>
      parseDeclaration M tokens current = Some (Inr (None, current))) \<and>
   (current < length tokens \<and> tok_type (tokens ! current) = ''KEYWORD'' \<and>
    \<not> (current + 1 < length tokens \<and> tok_type (tokens ! (current + 1)) = ''IDENTIFIER'') \<longrightarrow>
      parseDeclaration M tokens current = Some (Inr (None, current + 1)))"
  using parseDeclaration_not_function [of current tokens M]
    parseDeclaration_not_keyword [of current tokens M]
    parseDeclaration_not_identifier [of current tokens M]
  by blast

text \<open>
  The three cases on the tokens of \<^verbatim>\<open>int x = 10;\<close> (at the start, and at \<^verbatim>\<open>=\<close>) and
  of \<^verbatim>\<open>int 5\<close>.
\<close>

theorem parseDeclaration_keeps_consumed_tokens_witness:
  "\<forall>M. parseDeclaration M (tokenize_source ''int x = 10;'') 0 = Some (Inr (None, 2)) \<and>
       parseDeclaration M (tokenize_source ''int x = 10;'') 2 = Some (Inr (None, 2)) \<and>
       parseDeclaration M (tokenize_source ''int 5'') 0 = Some (Inr (None, 1))"
proof
  fix M
  have ts: "tokenize_source ''int x = 10;'' =
      [\<lparr>tok_type = ''KEYWORD'', tok_value = ''int'', tok_line = 1, tok_column = 1\<rparr>,
       \<lparr>tok_type = ''IDENTIFIER'', tok_value = ''x'', tok_line = 1, tok_column = 5\<rparr>,
       \<lparr>tok_type = ''PUNCTUATION'', tok_value = ''='', tok_line = 1, tok_column = 7\<rparr>,
       \<lparr>tok_type = ''NUMBER'', tok_value = ''10'', tok_line = 1, tok_column = 9\<rparr>,
       \<lparr>tok_type = ''PUNCTUATION'', tok_value = '';'', tok_line = 1, tok_column = 11\<rparr>]"
    by (simp add: tokenize_source_tokens tokens_of.simps(2) char_class_defs isKeyword_iff)
  have us: "tokenize_source ''int 5'' =
      [\<lparr>tok_type = ''KEYWORD'', tok_value = ''int'', tok_line = 1, tok_column = 1\<rparr>,
       \<lparr>tok_type = ''NUMBER'', tok_value = ''5'', tok_line = 1, tok_column = 5\<rparr>]"
    by (simp add: tokenize_source_tokens tokens_of.simps(2) char_class_defs isKeyword_iff)
  show "parseDeclaration M (tokenize_source ''int x = 10;'') 0 = Some (Inr (None, 2)) \<and>
       parseDeclaration M (tokenize_source ''int x = 10;'') 2 = Some (Inr (None, 2)) \<and>
       parseDeclaration M (tokenize_source ''int 5'') 0 = Some (Inr (None, 1))"
    using parseDeclaration_keeps_consumed_tokens [of 0 "tokenize_source ''int x = 10;''" M]
      parseDeclaration_keeps_consumed_tokens [of 2 "tokenize_source ''int x = 10;''" M]
      parseDeclaration_keeps_consumed_tokens [of 0 "tokenize_source ''int 5''" M]
    by (simp add: ts us)
qed

text \<open>
  C10.  No read of \<^verbatim>\<open>tokens[current]\<close> in \<^verbatim>\<open>parseStatement\<close>, \<^verbatim>\<open>parseBlock\<close>,
  \<^verbatim>\<open>parseDeclaration\<close> or \<^verbatim>\<open>parse\<close> is past the end of the tokens: none of them ever
  yields \<open>OutOfBounds\<close>, at any cursor, on any token sequence, with any missing methods.
  A read past the end would end the run with \<open>OutOfBounds\<close> at once, so a run that does
  not return has made none either.
\<close>

theorem parser_reads_in_bounds:
  "parseStatement M tokens current \<noteq> Inl OutOfBounds \<and>
   parseBlock M tokens current \<noteq> Some (Inl OutOfBounds) \<and>
   parseDeclaration M tokens current \<noteq> Some (Inl OutOfBounds) \<and>
   parse M tokens \<noteq> Some (Inl OutOfBounds)"
  using parseStatement_inbounds [of M tokens current]
    parseBlock_inbounds [of M tokens current]
    parseDeclaration_inbounds [of M tokens current]
    parse_inbounds [of M tokens]
  by auto

end
